theory Spec2Isabelle
  imports Main "HOL-Library.AList"
begin

section \<open>The HTTP callback transport (packages/transports/http-callback/src/index.ts)\<close>

text \<open>
  The transport turns a GraphQL subscription into an initiating HTTP request followed by
  webhook deliveries that reach the subscription through a publish/subscribe bus. The
  source is event driven: a call of \<open>httpCallbackExecutor\<close>, the consumer's first pull of
  the returned Repeater, the settling of the \<open>fetch\<close> promise, a message on the bus, an
  expiring timer and the disposal hook each run to completion on the JavaScript event loop,
  and the promise reactions they queue (here only the \<open>stop.finally\<close> hook) run right after.
  The embedding keeps that shape: one HOL function per piece of code, a record for the
  variables the closures share, and an event type for what the environment may do.

  What the environment provides is modelled by its documented contract:
  \<^item> \<open>setTimeout\<close> hands out a fresh handle and fires the callback once at the deadline
    unless \<open>clearTimeout\<close> was called on the handle first; clearing an unknown, fired or
    undefined handle does nothing;
  \<^item> a Repeater runs its executor lazily, on the first \<open>next()\<close>; \<open>push\<close> after the stop is
    ignored; \<open>stop\<close> is idempotent, records the first error and resolves the \<open>stop\<close> promise
    once; \<open>return()\<close> on a Repeater that never started finishes it without running the
    executor. The bounded push queue of the Repeater is not modelled;
  \<^item> the bus calls the listeners registered for a topic; the topic
    \<open>webhook:post:<path>/<subscriptionId>\<close> is identified with the subscription id.
  Logging, header interpolation and printing of the document have no effect on the
  variables below and are left out; the request is assumed to be built without an
  exception once the callback URL is.
\<close>

subsection \<open>Values\<close>

type_synonym sub_id = string
type_synonym payload = string

text \<open>A GraphQL error, with the two extension entries that the transport itself writes.\<close>

record graphql_error =
  message :: string
  ext_code :: "string option"
  ext_http_status :: "nat option"

text \<open>What \<open>stop\<close> may be given, and what a callback may throw.\<close>

datatype failure =
  GraphQLError graphql_error
| AggregateError "graphql_error list" string
| JsError string

record execution_result =
  errors :: "graphql_error list option"
  data :: "payload option"

datatype callback_action = Check | Next payload | Complete "graphql_error list option"

record HTTPCallbackMessage =
  action :: callback_action
  msg_id :: sub_id
  msg_verifier :: string

record HTTPCallbackTransportOptions =
  public_url :: "string option"
  path :: "string option"
  heartbeat_interval :: "nat option"

datatype headers_config = NoHeaders | HeadersString string | HeadersArray "(string \<times> string) list"

record transport_entry =
  location :: string
  headers :: headers_config
  options :: "HTTPCallbackTransportOptions option"

datatype json_result = JsonRejected failure | Json execution_result

record response =
  ok :: bool
  status :: nat
  json :: json_result

datatype fetch_result = FetchRejected failure | FetchResolved response

subsection \<open>State\<close>

datatype repeater_state = Initial | Started | Stopped "failure option"

datatype stop_ref = StopPlaceholder | RepeaterStop
datatype push_ref = PushPlaceholder | RepeaterPush

text \<open>The \<open>extensions.subscription\<close> block of the request body.\<close>

record subscription_extension =
  callbackUrl :: string
  ext_subscriptionId :: sub_id
  ext_verifier :: string
  ext_heartbeatIntervalMs :: nat

text \<open>
  The variables of one call of \<open>httpCallbackExecutor\<close>, with the state of the Repeater it
  returns. \<open>cleanups\<close> is a ghost counter: the number of times the \<open>stop.finally\<close> hook of
  this subscription has run.
\<close>

record subscription =
  heartbeatIntervalMs :: nat
  fetchBody :: subscription_extension
  stopSubscription :: stop_ref
  pushFn :: push_ref
  subId :: "nat option"
  repeater :: repeater_state
  pushed :: "payload list"
  fetch_pending :: bool
  cleanups :: nat

text \<open>
  The variables of one call of \<open>getSubgraphExecutor\<close> (\<open>verifier\<close>, \<open>heartbeats\<close>,
  \<open>stopFnSet\<close>, the bus it was given), and the environment: the subscriptions created so
  far, the pending timers (handle to owning subscription and deadline; every timer of this
  code runs \<open>stopSubscription(createTimeoutError())\<close> of its owner), the clock, the queued
  \<open>finally\<close> hooks, and the errors thrown out of a callback with nobody to catch them.
  A \<open>stop\<close> function is named by the subscription whose Repeater it belongs to.
\<close>

record transport =
  verifier :: string
  transportEntry :: transport_entry
  new_URL :: "string \<Rightarrow> sub_id \<Rightarrow> failure + string"
  heartbeats :: "(sub_id \<times> nat) list"
  stopFnSet :: "sub_id list"
  pubsub :: "(nat \<times> sub_id) list"
  next_subId :: nat
  subs :: "sub_id \<Rightarrow> subscription option"
  timers :: "nat \<Rightarrow> (sub_id \<times> nat) option"
  next_timer :: nat
  now :: nat
  microtasks :: "sub_id list"
  uncaught :: "failure list"

subsection \<open>Errors the transport creates\<close>

definition createGraphQLError :: "string \<Rightarrow> graphql_error \<Rightarrow> graphql_error" where
  "createGraphQLError msg opts = opts\<lparr>message := msg\<rparr>"

definition createTimeoutError :: graphql_error where
  "createTimeoutError =
     createGraphQLError ''Subscription timed out''
       \<lparr>message = [], ext_code = Some ''TIMEOUT_ERROR'', ext_http_status = None\<rparr>"

fun join :: "string \<Rightarrow> string list \<Rightarrow> string" where
  "join sep [] = []"
| "join sep [x] = x"
| "join sep (x # y # ys) = x @ sep @ join sep (y # ys)"

subsection \<open>Timers\<close>

definition setTimeout :: "sub_id \<Rightarrow> nat \<Rightarrow> transport \<Rightarrow> nat \<times> transport" where
  "setTimeout owner ms st =
     (next_timer st,
      st\<lparr>timers := (timers st)(next_timer st \<mapsto> (owner, now st + ms)),
         next_timer := Suc (next_timer st)\<rparr>)"

definition clearTimeout :: "nat option \<Rightarrow> transport \<Rightarrow> transport" where
  "clearTimeout h st = (case h of None \<Rightarrow> st | Some t \<Rightarrow> st\<lparr>timers := (timers st)(t := None)\<rparr>)"

subsection \<open>The Repeater\<close>

text \<open>\<open>stop(err)\<close> of a Repeater whose executor has run; the \<open>finally\<close> hook is queued.\<close>

definition repeater_stop :: "sub_id \<Rightarrow> failure option \<Rightarrow> transport \<Rightarrow> transport" where
  "repeater_stop sid err st =
     (case subs st sid of
        None \<Rightarrow> st
      | Some sub \<Rightarrow>
          (case repeater sub of
             Started \<Rightarrow> st\<lparr>subs := (subs st)(sid \<mapsto> sub\<lparr>repeater := Stopped err\<rparr>),
                           microtasks := microtasks st @ [sid]\<rparr>
           | _ \<Rightarrow> st))"

definition repeater_push :: "sub_id \<Rightarrow> payload \<Rightarrow> transport \<Rightarrow> transport" where
  "repeater_push sid v st =
     (case subs st sid of
        None \<Rightarrow> st
      | Some sub \<Rightarrow>
          (case repeater sub of
             Started \<Rightarrow> st\<lparr>subs := (subs st)(sid \<mapsto> sub\<lparr>pushed := pushed sub @ [v]\<rparr>)\<rparr>
           | _ \<Rightarrow> st))"

text \<open>
  The variables \<open>stopSubscription\<close> and \<open>pushFn\<close>: placeholders that throw until the executor
  of the Repeater replaces them (lines 110-114 and 124-128).
\<close>

definition call_stopSubscription :: "sub_id \<Rightarrow> failure option \<Rightarrow> transport \<Rightarrow> failure + transport" where
  "call_stopSubscription sid err st =
     (case subs st sid of
        None \<Rightarrow> Inr st
      | Some sub \<Rightarrow>
          (case stopSubscription sub of
             StopPlaceholder \<Rightarrow> (case err of Some e \<Rightarrow> Inl e | None \<Rightarrow> Inr st)
           | RepeaterStop \<Rightarrow> Inr (repeater_stop sid err st)))"

definition call_pushFn :: "sub_id \<Rightarrow> payload \<Rightarrow> transport \<Rightarrow> failure + transport" where
  "call_pushFn sid v st =
     (case subs st sid of
        None \<Rightarrow> Inr st
      | Some sub \<Rightarrow>
          (case pushFn sub of
             PushPlaceholder \<Rightarrow>
               Inl (GraphQLError (createGraphQLError
                 ''Subgraph does not look like configured correctly. Check your subgraph setup.''
                 \<lparr>message = [], ext_code = None, ext_http_status = None\<rparr>))
           | RepeaterPush \<Rightarrow> Inr (repeater_push sid v st)))"

text \<open>An exception that leaves a timer callback or the last link of the promise chain.\<close>

definition or_uncaught :: "transport \<Rightarrow> failure + transport \<Rightarrow> transport" where
  "or_uncaught st r = (case r of Inl e \<Rightarrow> st\<lparr>uncaught := uncaught st @ [e]\<rparr> | Inr st' \<Rightarrow> st')"

subsection \<open>The finalization hook (lines 228-233)\<close>

definition unsubscribe :: "nat \<Rightarrow> transport \<Rightarrow> transport" where
  "unsubscribe k st = st\<lparr>pubsub := AList.delete k (pubsub st)\<rparr>"

text \<open>Lines 230-231: the timer of a subscription is cancelled and its entry removed.\<close>

definition clear_heartbeat :: "sub_id \<Rightarrow> transport \<Rightarrow> transport" where
  "clear_heartbeat sid st =
     (let st1 = clearTimeout (map_of (heartbeats st) sid) st
      in st1\<lparr>heartbeats := AList.delete sid (heartbeats st1)\<rparr>)"

definition cleanup :: "sub_id \<Rightarrow> transport \<Rightarrow> transport" where
  "cleanup sid st =
     (case subs st sid of
        None \<Rightarrow> st
      | Some sub \<Rightarrow>
          (let st1 = (case subId sub of Some k \<Rightarrow> unsubscribe k st | None \<Rightarrow> st);
               st2 = clear_heartbeat sid st1;
               st3 = st2\<lparr>stopFnSet := removeAll sid (stopFnSet st2)\<rparr>
           in st3\<lparr>subs := (subs st3)(sid \<mapsto> sub\<lparr>cleanups := Suc (cleanups sub)\<rparr>)\<rparr>))"

text \<open>The microtask checkpoint: the queued hooks run, in order.\<close>

definition drain :: "transport \<Rightarrow> transport" where
  "drain st = fold cleanup (microtasks st) (st\<lparr>microtasks := []\<rparr>)"

subsection \<open>Creating a subscription (lines 85-128)\<close>

definition default_heartbeat :: "nat option \<Rightarrow> nat" where
  "default_heartbeat h = (case h of None \<Rightarrow> 50000 | Some n \<Rightarrow> if n = 0 then 50000 else n)"

definition or_default :: "string option \<Rightarrow> string \<Rightarrow> string" where
  "or_default s d = (case s of None \<Rightarrow> d | Some x \<Rightarrow> if x = [] then d else x)"

definition httpCallbackExecutor :: "sub_id \<Rightarrow> transport \<Rightarrow> failure + transport" where
  "httpCallbackExecutor subscriptionId st =
     (let callbackPath =
            or_default (case options (transportEntry st) of None \<Rightarrow> None | Some opts \<Rightarrow> path opts)
              ''/callback''
      in case options (transportEntry st) of
           None \<Rightarrow> Inl (JsError ''TypeError'')
         | Some opts \<Rightarrow>
             (case new_URL st (or_default (public_url opts) (''http://localhost:4000'' @ callbackPath))
                     subscriptionId of
                Inl e \<Rightarrow> Inl e
              | Inr url \<Rightarrow>
                  (let interval = default_heartbeat (heartbeat_interval opts);
                       body = \<lparr>callbackUrl = url, ext_subscriptionId = subscriptionId,
                               ext_verifier = verifier st, ext_heartbeatIntervalMs = interval\<rparr>;
                       sub = \<lparr>heartbeatIntervalMs = interval, fetchBody = body,
                              stopSubscription = StopPlaceholder, pushFn = PushPlaceholder,
                              subId = None, repeater = Initial, pushed = [],
                              fetch_pending = True, cleanups = 0\<rparr>;
                       st1 = st\<lparr>subs := (subs st)(subscriptionId \<mapsto> sub)\<rparr>;
                       (h, st2) = setTimeout subscriptionId interval st1
                   in Inr (st2\<lparr>heartbeats := AList.update subscriptionId h (heartbeats st2)\<rparr>))))"

subsection \<open>The executor of the Repeater (lines 180-234)\<close>

definition repeater_execute :: "sub_id \<Rightarrow> transport \<Rightarrow> transport" where
  "repeater_execute sid st =
     (case subs st sid of
        None \<Rightarrow> st
      | Some sub \<Rightarrow>
          st\<lparr>stopFnSet := (if sid \<in> set (stopFnSet st) then stopFnSet st else stopFnSet st @ [sid]),
             pubsub := pubsub st @ [(next_subId st, sid)],
             next_subId := Suc (next_subId st),
             subs := (subs st)(sid \<mapsto> sub\<lparr>pushFn := RepeaterPush, stopSubscription := RepeaterStop,
                                          subId := Some (next_subId st), repeater := Started\<rparr>)\<rparr>)"

text \<open>The consumer: \<open>next()\<close> starts the Repeater, \<open>return()\<close> cancels it.\<close>

definition repeater_next :: "sub_id \<Rightarrow> transport \<Rightarrow> transport" where
  "repeater_next sid st =
     (case subs st sid of
        None \<Rightarrow> st
      | Some sub \<Rightarrow> (if repeater sub = Initial then repeater_execute sid st else st))"

definition repeater_return :: "sub_id \<Rightarrow> transport \<Rightarrow> transport" where
  "repeater_return sid st =
     (case subs st sid of
        None \<Rightarrow> st
      | Some sub \<Rightarrow>
          (case repeater sub of
             Initial \<Rightarrow> st\<lparr>subs := (subs st)(sid \<mapsto> sub\<lparr>repeater := Stopped None\<rparr>)\<rparr>
           | Started \<Rightarrow> repeater_stop sid None st
           | Stopped e \<Rightarrow> st))"

subsection \<open>The reactions to the initiating request (lines 143-178)\<close>

definition http_error :: "nat \<Rightarrow> failure" where
  "http_error s =
     GraphQLError (createGraphQLError ''HTTP Error''
       \<lparr>message = [], ext_code = None, ext_http_status = Some s\<rparr>)"

definition on_resJson :: "sub_id \<Rightarrow> execution_result \<Rightarrow> transport \<Rightarrow> failure + transport" where
  "on_resJson sid resJson st =
     (case errors resJson of
        Some es \<Rightarrow>
          (if length es = 1
           then call_stopSubscription sid
                  (Some (GraphQLError (createGraphQLError (message (es ! 0)) (es ! 0)))) st
           else call_stopSubscription sid
                  (Some (AggregateError (map (\<lambda>err. createGraphQLError (message err) err) es)
                           (join [CHR 0x0A] (map message es)))) st)
      | None \<Rightarrow>
          (case data resJson of
             Some d \<Rightarrow>
               (case call_pushFn sid d st of
                  Inl e \<Rightarrow> Inl e
                | Inr st1 \<Rightarrow> call_stopSubscription sid None st1)
           | None \<Rightarrow> Inr st))"

definition on_catch :: "sub_id \<Rightarrow> failure \<Rightarrow> transport \<Rightarrow> transport" where
  "on_catch sid e st = or_uncaught st (call_stopSubscription sid (Some e) st)"

definition fetch_settled :: "sub_id \<Rightarrow> fetch_result \<Rightarrow> transport \<Rightarrow> transport" where
  "fetch_settled sid r st =
     (case r of
        FetchRejected e \<Rightarrow> on_catch sid e st
      | FetchResolved res \<Rightarrow>
          (case (if \<not> ok res then call_stopSubscription sid (Some (http_error (status res))) st
                 else Inr st) of
             Inl e \<Rightarrow> on_catch sid e st
           | Inr st1 \<Rightarrow>
               (case json res of
                  JsonRejected e \<Rightarrow> on_catch sid e st1
                | Json resJson \<Rightarrow>
                    (case on_resJson sid resJson st1 of
                       Inl e \<Rightarrow> on_catch sid e st1
                     | Inr st2 \<Rightarrow> st2))))"

subsection \<open>The listener on the bus (lines 187-226)\<close>

definition rearm :: "sub_id \<Rightarrow> nat \<Rightarrow> transport \<Rightarrow> transport" where
  "rearm sid interval st =
     (let existingHeartbeat = map_of (heartbeats st) sid;
          st1 = clearTimeout existingHeartbeat st;
          (h, st2) = setTimeout sid interval st1
      in st2\<lparr>heartbeats := AList.update sid h (heartbeats st2)\<rparr>)"

definition dispatch :: "sub_id \<Rightarrow> callback_action \<Rightarrow> transport \<Rightarrow> transport" where
  "dispatch sid a st =
     (case a of
        Check \<Rightarrow> st
      | Next p \<Rightarrow> repeater_push sid p st
      | Complete errs \<Rightarrow>
          (case errs of
             Some es \<Rightarrow>
               (if length es = 1
                then or_uncaught st (call_stopSubscription sid
                       (Some (GraphQLError (createGraphQLError (message (es ! 0)) (es ! 0)))) st)
                else or_uncaught st (call_stopSubscription sid
                       (Some (AggregateError (map (\<lambda>err. createGraphQLError (message err) err) es) []))
                       st))
           | None \<Rightarrow> or_uncaught st (call_stopSubscription sid None st)))"

definition handler :: "sub_id \<Rightarrow> HTTPCallbackMessage \<Rightarrow> transport \<Rightarrow> transport" where
  "handler sid msg st =
     (if msg_verifier msg \<noteq> verifier st then st
      else case subs st sid of
             None \<Rightarrow> st
           | Some sub \<Rightarrow> dispatch sid (action msg) (rearm sid (heartbeatIntervalMs sub) st))"

text \<open>The bus delivers a message on the topic of \<open>sid\<close>: every listener of the topic runs.\<close>

definition publish :: "sub_id \<Rightarrow> HTTPCallbackMessage \<Rightarrow> transport \<Rightarrow> transport" where
  "publish sid msg st =
     fold (\<lambda>l. handler sid msg) (filter (\<lambda>l. snd l = sid) (pubsub st)) st"

subsection \<open>Timer expiry\<close>

text \<open>The callback of a heartbeat timer (lines 117-119 and 198-200), run by the event loop.\<close>

definition fire :: "nat \<Rightarrow> transport \<Rightarrow> transport" where
  "fire h st =
     (case timers st h of
        None \<Rightarrow> st
      | Some (owner, deadline) \<Rightarrow>
          (let st1 = st\<lparr>timers := (timers st)(h := None)\<rparr>
           in or_uncaught st1
                (call_stopSubscription owner (Some (GraphQLError createTimeoutError)) st1)))"

definition due :: "nat \<Rightarrow> nat \<Rightarrow> transport \<Rightarrow> bool" where
  "due t h st = (case timers st h of None \<Rightarrow> False | Some (owner, deadline) \<Rightarrow> deadline \<le> t)"

text \<open>
  The clock advances by \<open>dt\<close>: the timers that are due fire, oldest handle first (all timers
  of a transport run for the same interval, so this is the order of their deadlines), each
  followed by its microtask checkpoint.
\<close>

definition elapse :: "nat \<Rightarrow> transport \<Rightarrow> transport" where
  "elapse dt st =
     (fold (\<lambda>h s. if due (now st + dt) h s then drain (fire h s) else s) [0..<next_timer st] st)
       \<lparr>now := now st + dt\<rparr>"

subsection \<open>Disposal (lines 236-243)\<close>

definition asyncDispose :: "transport \<Rightarrow> transport" where
  "asyncDispose st =
     (let st1 = fold (\<lambda>stop s. repeater_stop stop None s) (stopFnSet st) st
      in fold (\<lambda>interval s. clearTimeout (Some interval) s) (map snd (heartbeats st1)) st1)"

subsection \<open>Construction (lines 63-84)\<close>

definition pubsub_missing :: failure where
  "pubsub_missing = JsError ''You must provide a pubsub instance to http-callbacks transport!''"

text \<open>
  \<open>JSON.parse\<close>, the URL constructor and \<open>crypto.randomUUID\<close> are the environment's: the first
  two are parameters, the verifier is the value the third returned. A bus is given by its
  listeners and the next handle it will hand out.
\<close>

definition getSubgraphExecutor ::
  "(string \<Rightarrow> failure + (string \<times> string) list) \<Rightarrow> (string \<Rightarrow> sub_id \<Rightarrow> failure + string) \<Rightarrow>
   string \<Rightarrow> transport_entry \<Rightarrow> ((nat \<times> sub_id) list \<times> nat) option \<Rightarrow> failure + transport" where
  "getSubgraphExecutor JSON_parse url uuid entry bus =
     (case (case headers entry of
              HeadersString s \<Rightarrow> map_sum id Some (JSON_parse s)
            | HeadersArray kvs \<Rightarrow> Inr (Some kvs)
            | NoHeaders \<Rightarrow> Inr None) of
        Inl e \<Rightarrow> Inl e
      | Inr headersInConfig \<Rightarrow>
          (case bus of
             None \<Rightarrow> Inl pubsub_missing
           | Some (listeners, next_handle) \<Rightarrow>
               Inr \<lparr>verifier = uuid, transportEntry = entry, new_URL = url,
                    heartbeats = [], stopFnSet = [],
                    pubsub = listeners, next_subId = next_handle,
                    subs = Map.empty, timers = Map.empty, next_timer = 0, now = 0,
                    microtasks = [], uncaught = []\<rparr>))"

subsection \<open>Events\<close>

datatype event =
  Subscribe sub_id
| Pull sub_id
| Cancel sub_id
| Settle sub_id fetch_result
| Deliver sub_id HTTPCallbackMessage
| Elapse nat
| Dispose

definition step :: "transport \<Rightarrow> event \<Rightarrow> transport" where
  "step st e =
     (case e of
        Subscribe sid \<Rightarrow> (case httpCallbackExecutor sid st of Inl err \<Rightarrow> st | Inr st' \<Rightarrow> st')
      | Pull sid \<Rightarrow> drain (repeater_next sid st)
      | Cancel sid \<Rightarrow> drain (repeater_return sid st)
      | Settle sid r \<Rightarrow>
          (case subs st sid of
             None \<Rightarrow> st
           | Some sub \<Rightarrow>
               (if fetch_pending sub
                then drain (fetch_settled sid r
                       (st\<lparr>subs := (subs st)(sid \<mapsto> sub\<lparr>fetch_pending := False\<rparr>)\<rparr>))
                else st))
      | Deliver sid msg \<Rightarrow> drain (publish sid msg st)
      | Elapse dt \<Rightarrow> elapse dt st
      | Dispose \<Rightarrow> drain (asyncDispose st))"

definition run :: "transport \<Rightarrow> event list \<Rightarrow> transport" where
  "run st es = foldl step st es"

text \<open>
  \<open>crypto.randomUUID\<close> never returns an identifier twice: a history is admissible when each
  \<open>Subscribe\<close> uses an identifier that no earlier subscription has.
\<close>

fun admissible :: "transport \<Rightarrow> event list \<Rightarrow> bool" where
  "admissible st [] = True"
| "admissible st (e # es) =
     ((case e of Subscribe sid \<Rightarrow> subs st sid = None | _ \<Rightarrow> True) \<and> admissible (step st e) es)"

subsection \<open>Invariant\<close>

definition handle_of :: "transport \<Rightarrow> sub_id \<Rightarrow> nat option" where
  "handle_of st sid = (case subs st sid of None \<Rightarrow> None | Some sub \<Rightarrow> subId sub)"

definition timers_ok :: "transport \<Rightarrow> bool" where
  "timers_ok st \<longleftrightarrow>
     (\<forall>h s d. timers st h = Some (s, d) \<longrightarrow> map_of (heartbeats st) s = Some h) \<and>
     (\<forall>s h. map_of (heartbeats st) s = Some h \<longrightarrow> h < next_timer st) \<and>
     (\<forall>s s' h. map_of (heartbeats st) s = Some h \<longrightarrow> map_of (heartbeats st) s' = Some h \<longrightarrow> s = s')"

definition sub_ok :: "sub_id list \<Rightarrow> transport \<Rightarrow> sub_id \<Rightarrow> subscription \<Rightarrow> bool" where
  "sub_ok pending st sid sub \<longleftrightarrow>
     (stopSubscription sub = StopPlaceholder \<longrightarrow>
        pushFn sub = PushPlaceholder \<and> repeater sub \<noteq> Started \<and> cleanups sub = 0 \<and>
        subId sub = None \<and> sid \<notin> set (stopFnSet st) \<and> sid \<notin> snd ` set (pubsub st) \<and>
        sid \<notin> set pending) \<and>
     (stopSubscription sub = RepeaterStop \<longrightarrow>
        pushFn sub = RepeaterPush \<and> repeater sub \<noteq> Initial \<and>
        subId sub \<noteq> None \<and> the (subId sub) < next_subId st \<and>
        (repeater sub = Started \<or> sid \<in> set pending \<longrightarrow>
           cleanups sub = 0 \<and> sid \<in> set (stopFnSet st) \<and>
           (the (subId sub), sid) \<in> set (pubsub st) \<and>
           (repeater sub = Started \<longrightarrow> sid \<notin> set pending)) \<and>
        (repeater sub \<noteq> Started \<and> sid \<notin> set pending \<longrightarrow>
           cleanups sub = 1 \<and> sid \<notin> set (stopFnSet st) \<and>
           sid \<notin> snd ` set (pubsub st) \<and> map_of (heartbeats st) sid = None))"

definition subs_ok :: "sub_id list \<Rightarrow> transport \<Rightarrow> bool" where
  "subs_ok pending st \<longleftrightarrow> (\<forall>sid sub. subs st sid = Some sub \<longrightarrow> sub_ok pending st sid sub)"

definition listeners_ok :: "transport \<Rightarrow> bool" where
  "listeners_ok st \<longleftrightarrow>
     (\<forall>k s. (k, s) \<in> set (pubsub st) \<longrightarrow> handle_of st s = Some k) \<and>
     (\<forall>s s' k. handle_of st s = Some k \<longrightarrow> handle_of st s' = Some k \<longrightarrow> s = s') \<and>
     distinct (map fst (pubsub st))"

definition known :: "sub_id list \<Rightarrow> transport \<Rightarrow> bool" where
  "known pending st \<longleftrightarrow>
     (\<forall>sid. sid \<in> set (stopFnSet st) \<or> sid \<in> set pending \<or> map_of (heartbeats st) sid \<noteq> None
        \<longrightarrow> subs st sid \<noteq> None)"

definition config_ok :: "transport \<Rightarrow> bool" where
  "config_ok st \<longleftrightarrow>
     (\<forall>sid sub. subs st sid = Some sub \<longrightarrow>
        (\<exists>opts. options (transportEntry st) = Some opts \<and>
           heartbeatIntervalMs sub = default_heartbeat (heartbeat_interval opts) \<and>
           ext_heartbeatIntervalMs (fetchBody sub) = heartbeatIntervalMs sub \<and>
           ext_verifier (fetchBody sub) = verifier st \<and>
           ext_subscriptionId (fetchBody sub) = sid))"

definition winv :: "sub_id list \<Rightarrow> transport \<Rightarrow> bool" where
  "winv pending st \<longleftrightarrow>
     distinct pending \<and> subs_ok pending st \<and>
     timers_ok st \<and> listeners_ok st \<and> known pending st \<and> config_ok st"

definition inv :: "transport \<Rightarrow> bool" where
  "inv st \<longleftrightarrow> winv [] st \<and> microtasks st = []"

abbreviation W :: "transport \<Rightarrow> bool" where
  "W st \<equiv> winv (microtasks st) st"

text \<open>What \<open>getSubgraphExecutor\<close> fixed once and for all.\<close>

definition config_of :: "transport \<Rightarrow> string \<times> transport_entry" where
  "config_of st = (verifier st, transportEntry st)"

text \<open>A subscription whose sequence has ended with result \<open>r\<close> after yielding \<open>p\<close>.\<close>

definition settled :: "sub_id \<Rightarrow> failure option \<Rightarrow> payload list \<Rightarrow> transport \<Rightarrow> bool" where
  "settled sid r p st \<longleftrightarrow>
     (\<exists>sub. subs st sid = Some sub \<and> repeater sub = Stopped r \<and> pushed sub = p)"

text \<open>The executor of the Repeater of a subscription has run.\<close>

definition wired :: "sub_id \<Rightarrow> transport \<Rightarrow> bool" where
  "wired sid st \<longleftrightarrow> (\<exists>sub. subs st sid = Some sub \<and> stopSubscription sub = RepeaterStop)"

text \<open>
  The sequence of a subscription has ended and the finalization hook has run exactly once:
  no \<open>stop\<close> function, listener, heartbeat entry or timer of the subscription is left.
\<close>

definition finalized :: "sub_id \<Rightarrow> transport \<Rightarrow> bool" where
  "finalized sid st \<longleftrightarrow>
     (\<exists>sub. subs st sid = Some sub \<and> repeater sub \<noteq> Started \<and> repeater sub \<noteq> Initial \<and>
        cleanups sub = 1 \<and> sid \<notin> set (stopFnSet st) \<and> sid \<notin> snd ` set (pubsub st) \<and>
        map_of (heartbeats st) sid = None \<and> (\<forall>h. map_option fst (timers st h) \<noteq> Some sid))"

text \<open>The outcomes of the initiating request that end the sequence.\<close>

definition ends_sequence :: "fetch_result \<Rightarrow> bool" where
  "ends_sequence r =
     (case r of
        FetchRejected e \<Rightarrow> True
      | FetchResolved res \<Rightarrow>
          \<not> ok res \<or>
          (case json res of
             JsonRejected e \<Rightarrow> True
           | Json resJson \<Rightarrow> errors resJson \<noteq> None \<or> data resJson \<noteq> None))"

subsection \<open>A concrete transport\<close>

text \<open>
  A transport with the default options, used to run the model on concrete histories: the
  state that \<open>getSubgraphExecutor\<close> returns for a fresh bus.
\<close>

definition demo_entry :: transport_entry where
  "demo_entry = \<lparr>location = ''http://subgraph/graphql'', headers = NoHeaders,
     options = Some \<lparr>public_url = None, path = None, heartbeat_interval = None\<rparr>\<rparr>"

definition demo_url :: "string \<Rightarrow> sub_id \<Rightarrow> failure + string" where
  "demo_url base sid = Inr (base @ ''/'' @ sid)"

definition demo_parse :: "string \<Rightarrow> failure + (string \<times> string) list" where
  "demo_parse s = Inr []"

definition demo :: transport where
  "demo = \<lparr>verifier = ''v'', transportEntry = demo_entry, new_URL = demo_url,
            heartbeats = [], stopFnSet = [], pubsub = [], next_subId = 0,
            subs = Map.empty, timers = Map.empty, next_timer = 0, now = 0,
            microtasks = [], uncaught = []\<rparr>"

definition forged :: HTTPCallbackMessage where
  "forged = \<lparr>action = Next ''x'', msg_id = ''a'', msg_verifier = ''w''\<rparr>"

definition two_subs :: transport where
  "two_subs = run demo [Subscribe ''a'', Subscribe ''b'', Pull ''a'', Pull ''b'', Elapse 10]"

definition foreign_id :: HTTPCallbackMessage where
  "foreign_id = \<lparr>action = Check, msg_id = ''b'', msg_verifier = ''v''\<rparr>"

definition boom :: graphql_error where
  "boom = \<lparr>message = ''boom'', ext_code = None, ext_http_status = None\<rparr>"

definition started_a :: transport where
  "started_a = run demo [Subscribe ''a'', Pull ''a'']"

definition created_a :: transport where
  "created_a = run demo [Subscribe ''a'']"

definition response_with :: "bool \<Rightarrow> nat \<Rightarrow> graphql_error list option \<Rightarrow> payload option \<Rightarrow> fetch_result" where
  "response_with okay code es d =
     FetchResolved \<lparr>ok = okay, status = code, json = Json \<lparr>errors = es, data = d\<rparr>\<rparr>"

definition complete_with :: "graphql_error list option \<Rightarrow> HTTPCallbackMessage" where
  "complete_with es = \<lparr>action = Complete es, msg_id = ''a'', msg_verifier = ''v''\<rparr>"


section \<open>Evaluation\<close>

lemmas model_defs =
  run_def step_def httpCallbackExecutor_def Let_def setTimeout_def or_default_def
  default_heartbeat_def drain_def repeater_next_def repeater_execute_def repeater_return_def
  elapse_def due_def fire_def or_uncaught_def call_stopSubscription_def call_pushFn_def
  repeater_stop_def repeater_push_def cleanup_def clear_heartbeat_def unsubscribe_def
  clearTimeout_def
  fetch_settled_def on_catch_def on_resJson_def handler_def dispatch_def publish_def rearm_def
  asyncDispose_def createGraphQLError_def createTimeoutError_def http_error_def

lemmas demo_defs = demo_def demo_entry_def demo_url_def demo_parse_def

lemma demo_init:
  "getSubgraphExecutor demo_parse demo_url ''v'' demo_entry (Some ([], 0)) = Inr demo"
  by (simp add: getSubgraphExecutor_def demo_def demo_entry_def)

lemma drain_quiet: "microtasks st = [] \<Longrightarrow> drain st = st"
  by (simp add: drain_def)

section \<open>The invariant holds in every reachable state\<close>

lemma winvI:
  "distinct P \<Longrightarrow> subs_ok P st \<Longrightarrow> timers_ok st \<Longrightarrow> listeners_ok st \<Longrightarrow> known P st \<Longrightarrow>
   config_ok st \<Longrightarrow> winv P st"
  by (simp add: winv_def)

lemma winvD:
  assumes "winv P st"
  shows "distinct P" "subs_ok P st" "timers_ok st" "listeners_ok st" "known P st" "config_ok st"
  using assms by (simp_all add: winv_def)

text \<open>Updating one subscription without touching its wiring.\<close>

lemma handle_of_upd:
  "handle_of (st\<lparr>subs := (subs st)(sid \<mapsto> sub')\<rparr>) = (handle_of st)(sid := subId sub')"
  by (auto simp: handle_of_def fun_eq_iff)

lemma listeners_ok_upd:
  assumes "listeners_ok st" "subs st sid = Some sub" "subId sub' = subId sub"
  shows "listeners_ok (st\<lparr>subs := (subs st)(sid \<mapsto> sub')\<rparr>)"
proof -
  have "handle_of (st\<lparr>subs := (subs st)(sid \<mapsto> sub')\<rparr>) = handle_of st"
    using assms(2,3) by (auto simp: handle_of_def fun_eq_iff)
  then show ?thesis using assms(1) by (simp add: listeners_ok_def)
qed

lemma known_upd:
  assumes "known P st"
  shows "known P (st\<lparr>subs := (subs st)(sid \<mapsto> sub')\<rparr>)"
  using assms by (simp add: known_def)

lemma config_ok_upd:
  assumes "config_ok st" "subs st sid = Some sub"
    "heartbeatIntervalMs sub' = heartbeatIntervalMs sub" "fetchBody sub' = fetchBody sub"
  shows "config_ok (st\<lparr>subs := (subs st)(sid \<mapsto> sub')\<rparr>)"
  using assms unfolding config_ok_def by (auto split: if_splits)

lemma timers_ok_upd:
  "timers_ok (st\<lparr>subs := s\<rparr>) = timers_ok st"
  by (simp add: timers_ok_def)

lemma sub_ok_frame [simp]:
  "sub_ok P (st\<lparr>subs := s\<rparr>) sid sub = sub_ok P st sid sub"
  "sub_ok P (st\<lparr>timers := t\<rparr>) sid sub = sub_ok P st sid sub"
  "sub_ok P (st\<lparr>next_timer := n\<rparr>) sid sub = sub_ok P st sid sub"
  "sub_ok P (st\<lparr>now := n\<rparr>) sid sub = sub_ok P st sid sub"
  "sub_ok P (st\<lparr>microtasks := m\<rparr>) sid sub = sub_ok P st sid sub"
  "sub_ok P (st\<lparr>uncaught := u\<rparr>) sid sub = sub_ok P st sid sub"
  by (simp_all add: sub_ok_def)

lemma subs_ok_upd:
  assumes "subs_ok P st" "sub_ok P st sid sub'"
  shows "subs_ok P (st\<lparr>subs := (subs st)(sid \<mapsto> sub')\<rparr>)"
  using assms unfolding subs_ok_def by simp

lemma subs_okI_upd:
  assumes "sub_ok Q st sid sub'"
    and "\<And>s x. s \<noteq> sid \<Longrightarrow> subs st s = Some x \<Longrightarrow> sub_ok Q st s x"
  shows "subs_ok Q (st\<lparr>subs := (subs st)(sid \<mapsto> sub')\<rparr>)"
  using assms unfolding subs_ok_def by simp

lemma winv_upd:
  assumes "winv P st" "subs st sid = Some sub" "subId sub' = subId sub"
    "heartbeatIntervalMs sub' = heartbeatIntervalMs sub" "fetchBody sub' = fetchBody sub"
    "sub_ok P st sid sub'"
  shows "winv P (st\<lparr>subs := (subs st)(sid \<mapsto> sub')\<rparr>)"
proof (rule winvI)
  show "distinct P" using assms(1) by (rule winvD)
  show "subs_ok P (st\<lparr>subs := (subs st)(sid \<mapsto> sub')\<rparr>)"
    using winvD(2)[OF assms(1)] assms(6) by (rule subs_ok_upd)
  show "timers_ok (st\<lparr>subs := (subs st)(sid \<mapsto> sub')\<rparr>)"
    using winvD(3)[OF assms(1)] by (simp add: timers_ok_upd)
  show "listeners_ok (st\<lparr>subs := (subs st)(sid \<mapsto> sub')\<rparr>)"
    using winvD(4)[OF assms(1)] assms(2,3) by (rule listeners_ok_upd)
  show "known P (st\<lparr>subs := (subs st)(sid \<mapsto> sub')\<rparr>)"
    using winvD(5)[OF assms(1)] by (rule known_upd)
  show "config_ok (st\<lparr>subs := (subs st)(sid \<mapsto> sub')\<rparr>)"
    using winvD(6)[OF assms(1)] assms(2,4,5) by (rule config_ok_upd)
qed

lemma sub_okD: "winv P st \<Longrightarrow> subs st sid = Some sub \<Longrightarrow> sub_ok P st sid sub"
  by (simp add: winv_def subs_ok_def)

text \<open>Fields a component does not read.\<close>

lemma subs_ok_frame [simp]:
  "subs_ok P (st\<lparr>timers := t\<rparr>) = subs_ok P st"
  "subs_ok P (st\<lparr>next_timer := n\<rparr>) = subs_ok P st"
  "subs_ok P (st\<lparr>now := n\<rparr>) = subs_ok P st"
  "subs_ok P (st\<lparr>microtasks := m\<rparr>) = subs_ok P st"
  "subs_ok P (st\<lparr>uncaught := u\<rparr>) = subs_ok P st"
  by (simp_all add: subs_ok_def)

lemma timers_ok_frame [simp]:
  "timers_ok (st\<lparr>subs := s\<rparr>) = timers_ok st"
  "timers_ok (st\<lparr>stopFnSet := f\<rparr>) = timers_ok st"
  "timers_ok (st\<lparr>pubsub := p\<rparr>) = timers_ok st"
  "timers_ok (st\<lparr>next_subId := n\<rparr>) = timers_ok st"
  "timers_ok (st\<lparr>now := n\<rparr>) = timers_ok st"
  "timers_ok (st\<lparr>microtasks := m\<rparr>) = timers_ok st"
  "timers_ok (st\<lparr>uncaught := u\<rparr>) = timers_ok st"
  by (simp_all add: timers_ok_def)

lemma listeners_ok_frame [simp]:
  "listeners_ok (st\<lparr>timers := t\<rparr>) = listeners_ok st"
  "listeners_ok (st\<lparr>next_timer := n\<rparr>) = listeners_ok st"
  "listeners_ok (st\<lparr>heartbeats := h\<rparr>) = listeners_ok st"
  "listeners_ok (st\<lparr>stopFnSet := f\<rparr>) = listeners_ok st"
  "listeners_ok (st\<lparr>next_subId := n\<rparr>) = listeners_ok st"
  "listeners_ok (st\<lparr>now := n\<rparr>) = listeners_ok st"
  "listeners_ok (st\<lparr>microtasks := m\<rparr>) = listeners_ok st"
  "listeners_ok (st\<lparr>uncaught := u\<rparr>) = listeners_ok st"
  by (simp_all add: listeners_ok_def handle_of_def)

lemma known_frame [simp]:
  "known P (st\<lparr>timers := t\<rparr>) = known P st"
  "known P (st\<lparr>next_timer := n\<rparr>) = known P st"
  "known P (st\<lparr>pubsub := p\<rparr>) = known P st"
  "known P (st\<lparr>next_subId := n\<rparr>) = known P st"
  "known P (st\<lparr>now := n\<rparr>) = known P st"
  "known P (st\<lparr>microtasks := m\<rparr>) = known P st"
  "known P (st\<lparr>uncaught := u\<rparr>) = known P st"
  by (simp_all add: known_def)

lemma config_ok_frame [simp]:
  "config_ok (st\<lparr>timers := t\<rparr>) = config_ok st"
  "config_ok (st\<lparr>next_timer := n\<rparr>) = config_ok st"
  "config_ok (st\<lparr>heartbeats := h\<rparr>) = config_ok st"
  "config_ok (st\<lparr>stopFnSet := f\<rparr>) = config_ok st"
  "config_ok (st\<lparr>pubsub := p\<rparr>) = config_ok st"
  "config_ok (st\<lparr>next_subId := n\<rparr>) = config_ok st"
  "config_ok (st\<lparr>now := n\<rparr>) = config_ok st"
  "config_ok (st\<lparr>microtasks := m\<rparr>) = config_ok st"
  "config_ok (st\<lparr>uncaught := u\<rparr>) = config_ok st"
  by (simp_all add: config_ok_def)

lemma winv_frame [simp]:
  "winv P (st\<lparr>now := n\<rparr>) = winv P st"
  "winv P (st\<lparr>microtasks := m\<rparr>) = winv P st"
  "winv P (st\<lparr>uncaught := u\<rparr>) = winv P st"
  by (simp_all add: winv_def)

lemma winv_push: "winv P st \<Longrightarrow> winv P (repeater_push sid v st)"
proof (cases "subs st sid")
  case None
  assume "winv P st" then show ?thesis using None by (simp add: repeater_push_def)
next
  case (Some sub)
  assume w: "winv P st"
  show ?thesis
  proof (cases "repeater sub = Started")
    case False
    then show ?thesis using w Some by (simp add: repeater_push_def split: repeater_state.splits)
  next
    case True
    have "sub_ok P st sid (sub\<lparr>pushed := pushed sub @ [v]\<rparr>)"
      using sub_okD[OF w Some] by (simp add: sub_ok_def)
    then have "winv P (st\<lparr>subs := (subs st)(sid \<mapsto> sub\<lparr>pushed := pushed sub @ [v]\<rparr>)\<rparr>)"
      using w Some by (intro winv_upd[where sub = sub]) simp_all
    then show ?thesis using Some True by (simp add: repeater_push_def)
  qed
qed

lemma timers_ok_clear:
  "timers_ok st \<Longrightarrow> timers_ok (st\<lparr>timers := (timers st)(h := None)\<rparr>)"
  unfolding timers_ok_def by (simp (no_asm_simp)) blast

lemma winv_clearTimeout: "winv P st \<Longrightarrow> winv P (clearTimeout h st)"
  by (cases h) (simp_all add: clearTimeout_def winv_def timers_ok_clear)

lemma started_wired:
  "sub_ok P st sid sub \<Longrightarrow> repeater sub = Started \<Longrightarrow>
     stopSubscription sub = RepeaterStop \<and> cleanups sub = 0 \<and> sid \<in> set (stopFnSet st) \<and>
     (the (subId sub), sid) \<in> set (pubsub st) \<and> sid \<notin> set P \<and> subId sub \<noteq> None"
  by (cases "stopSubscription sub") (simp_all add: sub_ok_def)

lemma sub_ok_pending_other:
  "s \<noteq> sid \<Longrightarrow> sub_ok (P @ [sid]) st s sub = sub_ok P st s sub"
  "s \<noteq> sid \<Longrightarrow> sub_ok (sid # P) st s sub = sub_ok P st s sub"
  by (simp_all add: sub_ok_def)

lemma winv_stop_started:
  assumes w: "winv P st" and s: "subs st sid = Some sub" and r: "repeater sub = Started"
  shows "winv (P @ [sid]) (st\<lparr>subs := (subs st)(sid \<mapsto> sub\<lparr>repeater := Stopped e\<rparr>)\<rparr>)"
proof (rule winvI)
  note ph = started_wired[OF sub_okD[OF w s] r]
  show "distinct (P @ [sid])" using winvD(1)[OF w] ph by simp
  have "sub_ok (P @ [sid]) st sid (sub\<lparr>repeater := Stopped e\<rparr>)"
    using sub_okD[OF w s] ph by (simp add: sub_ok_def)
  moreover have "sub_ok (P @ [sid]) st s x" if "s \<noteq> sid" "subs st s = Some x" for s x
    using that sub_okD[OF w that(2)] by (simp add: sub_ok_pending_other)
  ultimately show "subs_ok (P @ [sid]) (st\<lparr>subs := (subs st)(sid \<mapsto> sub\<lparr>repeater := Stopped e\<rparr>)\<rparr>)"
    by (intro subs_okI_upd)
  show "timers_ok (st\<lparr>subs := (subs st)(sid \<mapsto> sub\<lparr>repeater := Stopped e\<rparr>)\<rparr>)"
    using winvD(3)[OF w] by simp
  show "listeners_ok (st\<lparr>subs := (subs st)(sid \<mapsto> sub\<lparr>repeater := Stopped e\<rparr>)\<rparr>)"
    using winvD(4)[OF w] s by (intro listeners_ok_upd[where sub = sub]) simp_all
  show "known (P @ [sid]) (st\<lparr>subs := (subs st)(sid \<mapsto> sub\<lparr>repeater := Stopped e\<rparr>)\<rparr>)"
    using winvD(5)[OF w] by (simp add: known_def)
  show "config_ok (st\<lparr>subs := (subs st)(sid \<mapsto> sub\<lparr>repeater := Stopped e\<rparr>)\<rparr>)"
    using winvD(6)[OF w] s by (intro config_ok_upd[where sub = sub]) simp_all
qed


lemma W_stop: "W st \<Longrightarrow> W (repeater_stop sid e st)"
proof (cases "subs st sid")
  case None
  assume "W st" then show ?thesis using None by (simp add: repeater_stop_def)
next
  case (Some sub)
  assume w: "W st"
  show ?thesis
  proof (cases "repeater sub = Started")
    case False
    then show ?thesis using w Some by (simp add: repeater_stop_def split: repeater_state.splits)
  next
    case True
    show ?thesis using winv_stop_started[OF w Some True, of e] Some True
      by (simp add: repeater_stop_def)
  qed
qed

lemma cleanup_fields:
  assumes "subs st sid = Some sub"
  shows "pubsub (cleanup sid st) =
           (case subId sub of Some k \<Rightarrow> AList.delete k (pubsub st) | None \<Rightarrow> pubsub st)"
    and "timers (cleanup sid st) =
           (case map_of (heartbeats st) sid of None \<Rightarrow> timers st
            | Some h \<Rightarrow> (timers st)(h := None))"
    and "heartbeats (cleanup sid st) = AList.delete sid (heartbeats st)"
    and "stopFnSet (cleanup sid st) = removeAll sid (stopFnSet st)"
    and "subs (cleanup sid st) = (subs st)(sid \<mapsto> sub\<lparr>cleanups := Suc (cleanups sub)\<rparr>)"
    and "next_timer (cleanup sid st) = next_timer st"
    and "next_subId (cleanup sid st) = next_subId st"
    and "microtasks (cleanup sid st) = microtasks st"
    and "now (cleanup sid st) = now st"
    and "uncaught (cleanup sid st) = uncaught st"
    and "verifier (cleanup sid st) = verifier st"
    and "transportEntry (cleanup sid st) = transportEntry st"
    and "new_URL (cleanup sid st) = new_URL st"
  using assms
  by (simp_all add: cleanup_def clear_heartbeat_def unsubscribe_def clearTimeout_def Let_def
        split: option.splits)

lemma cleanup_unknown: "subs st sid = None \<Longrightarrow> cleanup sid st = st"
  by (simp add: cleanup_def)

lemma timers_okD:
  assumes "timers_ok st"
  shows "timers st h = Some (s, d) \<Longrightarrow> map_of (heartbeats st) s = Some h"
    and "map_of (heartbeats st) s = Some h \<Longrightarrow> h < next_timer st"
    and "map_of (heartbeats st) s = Some h \<Longrightarrow> map_of (heartbeats st) s' = Some h \<Longrightarrow> s = s'"
  using assms unfolding timers_ok_def by blast+

lemma timers_ok_cleanup:
  assumes t: "timers_ok st" and s: "subs st sid = Some sub"
  shows "timers_ok (cleanup sid st)"
proof -
  let ?H = "map_of (heartbeats st)"
  have H': "map_of (heartbeats (cleanup sid st)) = ?H(sid := None)"
    by (simp add: cleanup_fields[OF s] AList.delete_conv')
  have T': "timers st h = Some (x, d) \<and> ?H sid \<noteq> Some h"
    if "timers (cleanup sid st) h = Some (x, d)" for h x d
    using that by (auto simp: cleanup_fields[OF s] split: option.splits if_splits)
  show ?thesis unfolding timers_ok_def H'
  proof (intro conjI allI impI)
    fix h x d assume "timers (cleanup sid st) h = Some (x, d)"
    then have a: "timers st h = Some (x, d)" "?H sid \<noteq> Some h" using T' by blast+
    then have b: "?H x = Some h" using timers_okD(1)[OF t] by blast
    with a(2) have "x \<noteq> sid" by auto
    then show "(?H(sid := None)) x = Some h" using b by simp
  next
    fix x h assume "(?H(sid := None)) x = Some h"
    then have "?H x = Some h" by (simp split: if_splits)
    then show "h < next_timer (cleanup sid st)"
      using timers_okD(2)[OF t] by (simp add: cleanup_fields[OF s])
  next
    fix x x' h assume "(?H(sid := None)) x = Some h" "(?H(sid := None)) x' = Some h"
    then have "?H x = Some h" "?H x' = Some h" by (simp_all split: if_splits)
    then show "x = x'" using timers_okD(3)[OF t] by blast
  qed
qed

lemma handle_of_cleanup: "handle_of (cleanup sid st) = handle_of st"
proof (cases "subs st sid")
  case None then show ?thesis by (simp add: cleanup_unknown)
next
  case (Some sub)
  have "handle_of (cleanup sid st) s = handle_of st s" for s
    using Some by (cases "s = sid") (simp_all add: handle_of_def cleanup_fields[OF Some])
  then show ?thesis by (simp add: fun_eq_iff)
qed

lemma listeners_ok_cleanup:
  assumes "listeners_ok st"
  shows "listeners_ok (cleanup sid st)"
proof (cases "subs st sid")
  case None then show ?thesis using assms by (simp add: cleanup_unknown)
next
  case (Some sub)
  have "set (pubsub (cleanup sid st)) \<subseteq> set (pubsub st)"
    by (auto simp: cleanup_fields[OF Some] AList.delete_eq split: option.splits)
  moreover have "distinct (map fst (pubsub (cleanup sid st)))"
    using assms unfolding listeners_ok_def
    by (simp add: cleanup_fields[OF Some] AList.distinct_delete split: option.splits)
  ultimately show ?thesis using assms unfolding listeners_ok_def handle_of_cleanup by blast
qed

lemma known_cleanup:
  assumes "known (sid # P) st"
  shows "known P (cleanup sid st)"
proof (cases "subs st sid")
  case None then show ?thesis using assms by (simp add: cleanup_unknown known_def)
next
  case (Some sub)
  show ?thesis using assms unfolding known_def
    by (auto simp: cleanup_fields[OF Some] AList.delete_conv')
qed

lemma config_ok_cleanup:
  assumes "config_ok st"
  shows "config_ok (cleanup sid st)"
proof (cases "subs st sid")
  case None then show ?thesis using assms by (simp add: cleanup_unknown)
next
  case (Some sub)
  show ?thesis using assms Some unfolding config_ok_def
    by (auto simp: cleanup_fields[OF Some])
qed

lemma listeners_okD:
  assumes "listeners_ok st"
  shows "(k, s) \<in> set (pubsub st) \<Longrightarrow> handle_of st s = Some k"
    and "handle_of st s = Some k \<Longrightarrow> handle_of st s' = Some k \<Longrightarrow> s = s'"
    and "distinct (map fst (pubsub st))"
  using assms unfolding listeners_ok_def by blast+

lemma knownD:
  assumes "known P st"
  shows "sid \<in> set (stopFnSet st) \<Longrightarrow> subs st sid \<noteq> None"
    and "sid \<in> set P \<Longrightarrow> subs st sid \<noteq> None"
    and "map_of (heartbeats st) sid = Some h \<Longrightarrow> subs st sid \<noteq> None"
  using assms unfolding known_def by auto

lemma pending_phase:
  assumes "sub_ok P st sid sub" "sid \<in> set P"
  shows "stopSubscription sub = RepeaterStop \<and> cleanups sub = 0 \<and> repeater sub \<noteq> Started \<and>
         subId sub \<noteq> None \<and> (the (subId sub), sid) \<in> set (pubsub st)"
  using assms by (cases "stopSubscription sub") (auto simp: sub_ok_def)

lemma sub_ok_cleanup_self:
  assumes w: "winv (sid # P) st" and s: "subs st sid = Some sub"
  shows "sub_ok P (cleanup sid st) sid (sub\<lparr>cleanups := Suc (cleanups sub)\<rparr>)"
proof -
  note ok = sub_okD[OF w s]
  note ph = pending_phase[OF ok, simplified]
  obtain k where k: "subId sub = Some k" using ph by auto
  have nP: "sid \<notin> set P" using winvD(1)[OF w] by simp
  have h: "handle_of st sid = Some k" using s k by (simp add: handle_of_def)
  have nl: "sid \<notin> snd ` set (pubsub (cleanup sid st))"
  proof
    assume "sid \<in> snd ` set (pubsub (cleanup sid st))"
    then obtain k' where "(k', sid) \<in> set (AList.delete k (pubsub st))"
      by (auto simp: cleanup_fields[OF s] k)
    then have "(k', sid) \<in> set (pubsub st)" "k' \<noteq> k" by (auto simp: AList.delete_eq)
    then show False using listeners_okD(1)[OF winvD(4)[OF w]] h by fastforce
  qed
  have "the (subId sub) < next_subId st" "pushFn sub = RepeaterPush" "repeater sub \<noteq> Initial"
    using ok ph by (simp_all add: sub_ok_def)
  then show ?thesis using ph nP nl
    by (simp add: sub_ok_def cleanup_fields[OF s] AList.delete_conv')
qed

lemma sub_ok_cleanup_other:
  assumes w: "winv (sid # P) st" and s: "subs st sid = Some sub"
    and x: "s' \<noteq> sid" "subs st s' = Some sub'"
  shows "sub_ok P (cleanup sid st) s' sub'"
proof -
  note ok = sub_okD[OF w x(2)]
  have ok': "sub_ok P st s' sub'" using ok x(1) by (simp add: sub_ok_pending_other)
  note ph = pending_phase[OF sub_okD[OF w s], simplified]
  obtain k where k: "subId sub = Some k" using ph by auto
  have a: "s' \<in> set (stopFnSet (cleanup sid st)) \<longleftrightarrow> s' \<in> set (stopFnSet st)"
    using x(1) by (simp add: cleanup_fields[OF s])
  have b: "map_of (heartbeats (cleanup sid st)) s' = map_of (heartbeats st) s'"
    using x(1) by (simp add: cleanup_fields[OF s] AList.delete_conv')
  have c: "s' \<notin> snd ` set (pubsub st) \<Longrightarrow> s' \<notin> snd ` set (pubsub (cleanup sid st))"
    by (auto simp: cleanup_fields[OF s] k AList.delete_eq)
  have d: "(the (subId sub'), s') \<in> set (pubsub (cleanup sid st))"
    if "(the (subId sub'), s') \<in> set (pubsub st)" "subId sub' \<noteq> None"
  proof -
    have "handle_of st s' = Some (the (subId sub'))" using x(2) that(2) by (auto simp: handle_of_def)
    moreover have "handle_of st sid = Some k" using s k by (simp add: handle_of_def)
    ultimately have "the (subId sub') \<noteq> k"
      using listeners_okD(2)[OF winvD(4)[OF w]] x(1) by blast
    then show ?thesis using that(1) by (simp add: cleanup_fields[OF s] k AList.delete_eq)
  qed
  have e: "next_subId (cleanup sid st) = next_subId st" by (simp add: cleanup_fields[OF s])
  show ?thesis using ok' c d unfolding sub_ok_def a b e by blast
qed

lemma winv_cleanup:
  assumes w: "winv (sid # P) st"
  shows "winv P (cleanup sid st)"
proof -
  obtain sub where s: "subs st sid = Some sub" using knownD(2)[OF winvD(5)[OF w], of sid] by auto
  show ?thesis
  proof (rule winvI)
    show "distinct P" using winvD(1)[OF w] by simp
    show "subs_ok P (cleanup sid st)"
      unfolding subs_ok_def
    proof (intro allI impI)
      fix s' sub' assume a: "subs (cleanup sid st) s' = Some sub'"
      show "sub_ok P (cleanup sid st) s' sub'"
      proof (cases "s' = sid")
        case True
        then have "sub' = sub\<lparr>cleanups := Suc (cleanups sub)\<rparr>"
          using a by (simp add: cleanup_fields[OF s])
        then show ?thesis using sub_ok_cleanup_self[OF w s] True by simp
      next
        case False
        then have "subs st s' = Some sub'" using a by (simp add: cleanup_fields[OF s])
        then show ?thesis using sub_ok_cleanup_other[OF w s False] by simp
      qed
    qed
    show "timers_ok (cleanup sid st)" using winvD(3)[OF w] s by (rule timers_ok_cleanup)
    show "listeners_ok (cleanup sid st)" using winvD(4)[OF w] by (rule listeners_ok_cleanup)
    show "known P (cleanup sid st)" using winvD(5)[OF w] by (rule known_cleanup)
    show "config_ok (cleanup sid st)" using winvD(6)[OF w] by (rule config_ok_cleanup)
  qed
qed

lemma microtasks_cleanup [simp]: "microtasks (cleanup sid st) = microtasks st"
  by (cases "subs st sid") (simp_all add: cleanup_unknown cleanup_fields)

lemma winv_fold_cleanup: "winv (Q @ P) st \<Longrightarrow> winv P (fold cleanup Q st)"
proof (induction Q arbitrary: st)
  case Nil then show ?case by simp
next
  case (Cons q Q)
  then show ?case using winv_cleanup[of q "Q @ P" st] by simp
qed

lemma microtasks_fold_cleanup [simp]: "microtasks (fold cleanup Q st) = microtasks st"
  by (induction Q arbitrary: st) simp_all

lemma inv_drain: "W st \<Longrightarrow> inv (drain st)"
  using winv_fold_cleanup[of "microtasks st" "[]" "st\<lparr>microtasks := []\<rparr>"]
  by (simp add: inv_def drain_def)

lemma inv_W: "inv st \<Longrightarrow> W st"
  by (simp add: inv_def)

text \<open>Components read only some fields.\<close>

lemma sub_ok_cong:
  "stopFnSet st' = stopFnSet st \<Longrightarrow> pubsub st' = pubsub st \<Longrightarrow> next_subId st' = next_subId st \<Longrightarrow>
   (map_of (heartbeats st') sid = None \<longleftrightarrow> map_of (heartbeats st) sid = None) \<Longrightarrow>
   sub_ok P st' sid sub = sub_ok P st sid sub"
  by (simp add: sub_ok_def)

lemma listeners_ok_cong:
  "pubsub st' = pubsub st \<Longrightarrow> handle_of st' = handle_of st \<Longrightarrow> listeners_ok st' = listeners_ok st"
  by (simp add: listeners_ok_def)

lemma config_ok_cong:
  "subs st' = subs st \<Longrightarrow> transportEntry st' = transportEntry st \<Longrightarrow> verifier st' = verifier st \<Longrightarrow>
   config_ok st' = config_ok st"
  by (simp add: config_ok_def)

lemma handle_of_cong: "subs st' = subs st \<Longrightarrow> handle_of st' = handle_of st"
  by (simp add: handle_of_def fun_eq_iff)

text \<open>Arming a timer for a subscription that owns no pending timer.\<close>

lemma timers_ok_arm:
  assumes t: "timers_ok st" and free: "\<And>h d. timers st h \<noteq> Some (sid, d)"
    and T: "timers st' = (timers st)(next_timer st \<mapsto> (sid, dl))"
    and N: "next_timer st' = Suc (next_timer st)"
    and H: "map_of (heartbeats st') = (map_of (heartbeats st))(sid \<mapsto> next_timer st)"
  shows "timers_ok st'"
  unfolding timers_ok_def T N H
proof (intro conjI allI impI)
  fix h s d assume a: "((timers st)(next_timer st \<mapsto> (sid, dl))) h = Some (s, d)"
  show "((map_of (heartbeats st))(sid \<mapsto> next_timer st)) s = Some h"
  proof (cases "h = next_timer st")
    case True then show ?thesis using a by simp
  next
    case False
    then have b: "timers st h = Some (s, d)" using a by simp
    then have "s \<noteq> sid" using free by auto
    then show ?thesis using timers_okD(1)[OF t b] by simp
  qed
next
  fix s h assume "((map_of (heartbeats st))(sid \<mapsto> next_timer st)) s = Some h"
  then have "h = next_timer st \<or> map_of (heartbeats st) s = Some h" by (auto split: if_splits)
  then show "h < Suc (next_timer st)" using timers_okD(2)[OF t] by (auto simp: less_Suc_eq)
next
  fix s s' h
  assume a: "((map_of (heartbeats st))(sid \<mapsto> next_timer st)) s = Some h"
    and b: "((map_of (heartbeats st))(sid \<mapsto> next_timer st)) s' = Some h"
  have fresh: "map_of (heartbeats st) x \<noteq> Some (next_timer st)" for x
    using timers_okD(2)[OF t, of x "next_timer st"] by auto
  show "s = s'"
  proof (cases "s = sid")
    case True
    then have "h = next_timer st" using a by simp
    then show ?thesis using b fresh True by (auto split: if_splits)
  next
    case False
    then have c: "map_of (heartbeats st) s = Some h" using a by simp
    then have "h \<noteq> next_timer st" using fresh by auto
    then have "s' \<noteq> sid" using b by auto
    then show ?thesis using b c timers_okD(3)[OF t] by auto
  qed
qed

lemma rearm_fields:
  "timers (rearm sid i st) =
     (case map_of (heartbeats st) sid of None \<Rightarrow> timers st | Some h \<Rightarrow> (timers st)(h := None))
       (next_timer st \<mapsto> (sid, now st + i))"
  "next_timer (rearm sid i st) = Suc (next_timer st)"
  "heartbeats (rearm sid i st) = AList.update sid (next_timer st) (heartbeats st)"
  "subs (rearm sid i st) = subs st"
  "stopFnSet (rearm sid i st) = stopFnSet st"
  "pubsub (rearm sid i st) = pubsub st"
  "next_subId (rearm sid i st) = next_subId st"
  "microtasks (rearm sid i st) = microtasks st"
  "now (rearm sid i st) = now st"
  "uncaught (rearm sid i st) = uncaught st"
  "verifier (rearm sid i st) = verifier st"
  "transportEntry (rearm sid i st) = transportEntry st"
  "new_URL (rearm sid i st) = new_URL st"
  by (simp_all add: rearm_def setTimeout_def clearTimeout_def Let_def split: option.splits)

lemma sub_ok_rearm_self:
  assumes "sub_ok P st sid sub" "sid \<in> snd ` set (pubsub st)"
  shows "sub_ok P (rearm sid i st) sid sub"
proof (cases "stopSubscription sub")
  case StopPlaceholder
  then show ?thesis using assms by (simp add: sub_ok_def rearm_fields)
next
  case RepeaterStop
  then have "repeater sub = Started \<or> sid \<in> set P" using assms by (auto simp: sub_ok_def)
  then show ?thesis using assms RepeaterStop by (simp add: sub_ok_def rearm_fields)
qed

lemma no_timer_after_clear:
  assumes "timers_ok st"
  shows "timers (clearTimeout (map_of (heartbeats st) sid) st) h \<noteq> Some (sid, d)"
proof (cases "map_of (heartbeats st) sid")
  case None
  then show ?thesis using timers_okD(1)[OF assms, of h sid d] by (auto simp: clearTimeout_def)
next
  case (Some h')
  then show ?thesis using timers_okD(1)[OF assms, of h sid d] by (auto simp: clearTimeout_def)
qed

lemma known_rearm:
  assumes "known P st" "subs st sid \<noteq> None"
  shows "known P (rearm sid i st)"
  unfolding known_def
proof (intro allI impI)
  fix s assume a: "s \<in> set (stopFnSet (rearm sid i st)) \<or> s \<in> set P \<or>
     map_of (heartbeats (rearm sid i st)) s \<noteq> None"
  show "subs (rearm sid i st) s \<noteq> None"
  proof (cases "s = sid")
    case True then show ?thesis using assms(2) by (simp add: rearm_fields)
  next
    case False
    then have "s \<in> set (stopFnSet st) \<or> s \<in> set P \<or> map_of (heartbeats st) s \<noteq> None"
      using a by (simp add: rearm_fields AList.update_conv')
    then show ?thesis using assms(1) unfolding known_def by (auto simp: rearm_fields)
  qed
qed

lemma winv_rearm:
  assumes w: "winv P st" and l: "sid \<in> snd ` set (pubsub st)"
  shows "winv P (rearm sid i st)"
proof (rule winvI)
  obtain k where k: "(k, sid) \<in> set (pubsub st)" using l by auto
  have h: "handle_of st sid = Some k" using listeners_okD(1)[OF winvD(4)[OF w] k] .
  then have s: "subs st sid \<noteq> None" by (auto simp: handle_of_def split: option.splits)
  show "distinct P" using winvD(1)[OF w] .
  show "subs_ok P (rearm sid i st)"
    unfolding subs_ok_def
  proof (intro allI impI)
    fix s' sub' assume "subs (rearm sid i st) s' = Some sub'"
    then have a: "subs st s' = Some sub'" by (simp add: rearm_fields)
    note ok = sub_okD[OF w a]
    show "sub_ok P (rearm sid i st) s' sub'"
    proof (cases "s' = sid")
      case False
      then have "sub_ok P (rearm sid i st) s' sub' = sub_ok P st s' sub'"
        by (intro sub_ok_cong) (simp_all add: rearm_fields AList.update_conv')
      then show ?thesis using ok by simp
    next
      case True
      then show ?thesis using sub_ok_rearm_self[OF _ l, of P sub' i] ok by simp
    qed
  qed
  let ?c = "clearTimeout (map_of (heartbeats st) sid) st"
  have c: "next_timer ?c = next_timer st" "heartbeats ?c = heartbeats st"
    "timers ?c = (case map_of (heartbeats st) sid of None \<Rightarrow> timers st | Some h \<Rightarrow> (timers st)(h := None))"
    by (simp_all add: clearTimeout_def split: option.splits)
  show "timers_ok (rearm sid i st)"
  proof (rule timers_ok_arm[where sid = sid and dl = "now st + i"
        and st = "clearTimeout (map_of (heartbeats st) sid) st"])
    show "timers_ok ?c"
      using winv_clearTimeout[OF w] by (rule winvD)
    show "timers ?c h \<noteq> Some (sid, d)" for h d
      using no_timer_after_clear[OF winvD(3)[OF w]] .
    show "timers (rearm sid i st) = (timers ?c)(next_timer ?c \<mapsto> (sid, now st + i))"
      unfolding c by (simp add: rearm_fields)
    show "next_timer (rearm sid i st) = Suc (next_timer ?c)"
      unfolding c by (simp add: rearm_fields)
    show "map_of (heartbeats (rearm sid i st)) = (map_of (heartbeats ?c))(sid \<mapsto> next_timer ?c)"
      unfolding c by (simp add: rearm_fields AList.update_conv')
  qed
  have "handle_of (rearm sid i st) = handle_of st"
    by (rule handle_of_cong) (simp add: rearm_fields)
  then have "listeners_ok (rearm sid i st) = listeners_ok st"
    by (intro listeners_ok_cong) (simp_all add: rearm_fields)
  then show "listeners_ok (rearm sid i st)"
    using winvD(4)[OF w] by simp
  show "known P (rearm sid i st)"
    using winvD(5)[OF w] s by (rule known_rearm)
  have "config_ok (rearm sid i st) = config_ok st"
    by (intro config_ok_cong) (simp_all add: rearm_fields)
  then show "config_ok (rearm sid i st)"
    using winvD(6)[OF w] by simp
qed

text \<open>The executor of the Repeater.\<close>

lemma unwired_phase:
  assumes "sub_ok P st sid sub" "repeater sub = Initial"
  shows "stopSubscription sub = StopPlaceholder \<and> cleanups sub = 0 \<and> subId sub = None \<and>
         sid \<notin> set (stopFnSet st) \<and> sid \<notin> snd ` set (pubsub st) \<and> sid \<notin> set P"
  using assms by (cases "stopSubscription sub") (simp_all add: sub_ok_def)

lemma handle_bound:
  assumes "subs_ok P st" "handle_of st s = Some k"
  shows "k < next_subId st"
proof -
  obtain sub where s: "subs st s = Some sub" "subId sub = Some k"
    using assms(2) by (auto simp: handle_of_def split: option.splits)
  then have "sub_ok P st s sub" using assms(1) by (simp add: subs_ok_def)
  then show ?thesis using s(2) by (cases "stopSubscription sub") (simp_all add: sub_ok_def)
qed

lemma execute_fields:
  assumes "subs st sid = Some sub"
  shows "stopFnSet (repeater_execute sid st) =
           (if sid \<in> set (stopFnSet st) then stopFnSet st else stopFnSet st @ [sid])"
    and "pubsub (repeater_execute sid st) = pubsub st @ [(next_subId st, sid)]"
    and "next_subId (repeater_execute sid st) = Suc (next_subId st)"
    and "subs (repeater_execute sid st) =
           (subs st)(sid \<mapsto> sub\<lparr>pushFn := RepeaterPush, stopSubscription := RepeaterStop,
                                 subId := Some (next_subId st), repeater := Started\<rparr>)"
    and "timers (repeater_execute sid st) = timers st"
    and "next_timer (repeater_execute sid st) = next_timer st"
    and "heartbeats (repeater_execute sid st) = heartbeats st"
    and "microtasks (repeater_execute sid st) = microtasks st"
    and "now (repeater_execute sid st) = now st"
    and "uncaught (repeater_execute sid st) = uncaught st"
    and "verifier (repeater_execute sid st) = verifier st"
    and "transportEntry (repeater_execute sid st) = transportEntry st"
    and "new_URL (repeater_execute sid st) = new_URL st"
  using assms by (simp_all add: repeater_execute_def)

lemma sub_ok_execute_other:
  assumes ok: "sub_ok P st s' sub'" and x: "s' \<noteq> sid" and s: "subs st sid = Some sub"
  shows "sub_ok P (repeater_execute sid st) s' sub'"
proof -
  have a: "s' \<in> set (stopFnSet (repeater_execute sid st)) \<longleftrightarrow> s' \<in> set (stopFnSet st)"
    using x by (simp add: execute_fields[OF s])
  have b: "s' \<in> snd ` set (pubsub (repeater_execute sid st)) \<longleftrightarrow> s' \<in> snd ` set (pubsub st)"
    using x by (auto simp: execute_fields[OF s])
  have c: "(k, s') \<in> set (pubsub (repeater_execute sid st)) \<longleftrightarrow> (k, s') \<in> set (pubsub st)" for k
    using x by (auto simp: execute_fields[OF s])
  have d: "k < next_subId st \<Longrightarrow> k < next_subId (repeater_execute sid st)" for k
    by (simp add: execute_fields[OF s])
  have e: "heartbeats (repeater_execute sid st) = heartbeats st"
    by (simp add: execute_fields[OF s])
  show ?thesis using ok d unfolding sub_ok_def a b c e by blast
qed

lemma winv_execute:
  assumes w: "winv P st" and s: "subs st sid = Some sub" and r: "repeater sub = Initial"
  shows "winv P (repeater_execute sid st)"
proof (rule winvI)
  note ph = unwired_phase[OF sub_okD[OF w s] r]
  let ?sub = "sub\<lparr>pushFn := RepeaterPush, stopSubscription := RepeaterStop,
                  subId := Some (next_subId st), repeater := Started\<rparr>"
  show "distinct P" using winvD(1)[OF w] .
  show "subs_ok P (repeater_execute sid st)"
    unfolding subs_ok_def
  proof (intro allI impI)
    fix s' sub' assume a: "subs (repeater_execute sid st) s' = Some sub'"
    show "sub_ok P (repeater_execute sid st) s' sub'"
    proof (cases "s' = sid")
      case True
      then have "sub' = ?sub" using a by (simp add: execute_fields[OF s])
      then show ?thesis using ph True by (simp add: sub_ok_def execute_fields[OF s])
    next
      case False
      then have "subs st s' = Some sub'" using a by (simp add: execute_fields[OF s])
      then show ?thesis using sub_ok_execute_other[OF sub_okD[OF w] False s] by simp
    qed
  qed
  show "timers_ok (repeater_execute sid st)"
    using winvD(3)[OF w] by (simp add: timers_ok_def execute_fields[OF s])
  have ho: "handle_of (repeater_execute sid st) = (handle_of st)(sid \<mapsto> next_subId st)"
    by (auto simp: handle_of_def execute_fields[OF s] fun_eq_iff)
  show "listeners_ok (repeater_execute sid st)"
    unfolding listeners_ok_def ho
  proof (intro conjI allI impI)
    fix k x assume "(k, x) \<in> set (pubsub (repeater_execute sid st))"
    then have "(k, x) = (next_subId st, sid) \<or> (k, x) \<in> set (pubsub st)"
      by (auto simp: execute_fields[OF s])
    then show "((handle_of st)(sid \<mapsto> next_subId st)) x = Some k"
    proof
      assume "(k, x) = (next_subId st, sid)" then show ?thesis by simp
    next
      assume b: "(k, x) \<in> set (pubsub st)"
      then have "x \<noteq> sid" using ph by force
      then show ?thesis using listeners_okD(1)[OF winvD(4)[OF w] b] by simp
    qed
  next
    fix x x' k
    assume a: "((handle_of st)(sid \<mapsto> next_subId st)) x = Some k"
      and b: "((handle_of st)(sid \<mapsto> next_subId st)) x' = Some k"
    have fresh: "handle_of st y \<noteq> Some (next_subId st)" for y
      using handle_bound[OF winvD(2)[OF w], of y "next_subId st"] by auto
    show "x = x'"
    proof (cases "x = sid")
      case True
      then have "k = next_subId st" using a by simp
      then show ?thesis using b fresh True by (auto split: if_splits)
    next
      case False
      then have c: "handle_of st x = Some k" using a by simp
      then have "k \<noteq> next_subId st" using fresh by auto
      then have "x' \<noteq> sid" using b by auto
      then show ?thesis using b c listeners_okD(2)[OF winvD(4)[OF w]] by auto
    qed
  next
    have "k < next_subId st" if "(k, x) \<in> set (pubsub st)" for k x
      using handle_bound[OF winvD(2)[OF w] listeners_okD(1)[OF winvD(4)[OF w] that]] .
    then have "next_subId st \<notin> fst ` set (pubsub st)" by fastforce
    then show "distinct (map fst (pubsub (repeater_execute sid st)))"
      using listeners_okD(3)[OF winvD(4)[OF w]] by (simp add: execute_fields[OF s])
  qed
  show "known P (repeater_execute sid st)"
    using winvD(5)[OF w] s unfolding known_def
    by (auto simp: execute_fields[OF s] split: if_splits)
  show "config_ok (repeater_execute sid st)"
    using winvD(6)[OF w] s unfolding config_ok_def
    by (auto simp: execute_fields[OF s])
qed

lemma W_next: "W st \<Longrightarrow> W (repeater_next sid st)"
proof (cases "subs st sid")
  case None
  assume "W st" then show ?thesis using None by (simp add: repeater_next_def)
next
  case (Some sub)
  assume w: "W st"
  show ?thesis
  proof (cases "repeater sub = Initial")
    case False then show ?thesis using w Some by (simp add: repeater_next_def)
  next
    case True
    then show ?thesis using winv_execute[OF w Some True] Some
      by (simp add: repeater_next_def execute_fields[OF Some])
  qed
qed

lemma W_return: "W st \<Longrightarrow> W (repeater_return sid st)"
proof (cases "subs st sid")
  case None
  assume "W st" then show ?thesis using None by (simp add: repeater_return_def)
next
  case (Some sub)
  assume w: "W st"
  show ?thesis
  proof (cases "repeater sub")
    case Initial
    note ph = unwired_phase[OF sub_okD[OF w Some] Initial]
    have "sub_ok (microtasks st) st sid (sub\<lparr>repeater := Stopped None\<rparr>)"
      using sub_okD[OF w Some] ph by (simp add: sub_ok_def)
    then have "winv (microtasks st) (st\<lparr>subs := (subs st)(sid \<mapsto> sub\<lparr>repeater := Stopped None\<rparr>)\<rparr>)"
      using w Some by (intro winv_upd[where sub = sub]) simp_all
    then show ?thesis using Some Initial by (simp add: repeater_return_def)
  next
    case Started
    then show ?thesis using W_stop[OF w, of sid None] Some by (simp add: repeater_return_def)
  next
    case (Stopped e)
    then show ?thesis using w Some by (simp add: repeater_return_def)
  qed
qed

lemma winv_fetch_flag:
  assumes w: "winv P st" and s: "subs st sid = Some sub"
  shows "winv P (st\<lparr>subs := (subs st)(sid \<mapsto> sub\<lparr>fetch_pending := b\<rparr>)\<rparr>)"
proof -
  have "sub_ok P st sid (sub\<lparr>fetch_pending := b\<rparr>)"
    using sub_okD[OF w s] by (simp add: sub_ok_def)
  then show ?thesis using w s by (intro winv_upd[where sub = sub]) simp_all
qed

text \<open>Creating a subscription.\<close>

lemma create_fields:
  assumes "httpCallbackExecutor sid st = Inr st'"
  shows "\<exists>opts url.
      options (transportEntry st) = Some opts \<and>
      subs st' = (subs st)(sid \<mapsto>
         \<lparr>heartbeatIntervalMs = default_heartbeat (heartbeat_interval opts),
          fetchBody = \<lparr>callbackUrl = url, ext_subscriptionId = sid, ext_verifier = verifier st,
                       ext_heartbeatIntervalMs = default_heartbeat (heartbeat_interval opts)\<rparr>,
          stopSubscription = StopPlaceholder, pushFn = PushPlaceholder, subId = None,
          repeater = Initial, pushed = [], fetch_pending = True, cleanups = 0\<rparr>) \<and>
      timers st' = (timers st)(next_timer st \<mapsto>
         (sid, now st + default_heartbeat (heartbeat_interval opts)))"
    and "next_timer st' = Suc (next_timer st)"
    and "heartbeats st' = AList.update sid (next_timer st) (heartbeats st)"
    and "stopFnSet st' = stopFnSet st"
    and "pubsub st' = pubsub st"
    and "next_subId st' = next_subId st"
    and "microtasks st' = microtasks st"
    and "now st' = now st"
    and "uncaught st' = uncaught st"
    and "verifier st' = verifier st"
    and "transportEntry st' = transportEntry st"
    and "new_URL st' = new_URL st"
  using assms
  by (auto simp: httpCallbackExecutor_def setTimeout_def Let_def split: option.splits sum.splits)

lemma winv_create:
  assumes w: "winv P st" and c: "httpCallbackExecutor sid st = Inr st'" and f: "subs st sid = None"
  shows "winv P st'"
proof (rule winvI)
  note cf = create_fields[OF c]
  obtain opts url where o: "options (transportEntry st) = Some opts"
    and S: "subs st' = (subs st)(sid \<mapsto>
         \<lparr>heartbeatIntervalMs = default_heartbeat (heartbeat_interval opts),
          fetchBody = \<lparr>callbackUrl = url, ext_subscriptionId = sid, ext_verifier = verifier st,
                       ext_heartbeatIntervalMs = default_heartbeat (heartbeat_interval opts)\<rparr>,
          stopSubscription = StopPlaceholder, pushFn = PushPlaceholder, subId = None,
          repeater = Initial, pushed = [], fetch_pending = True, cleanups = 0\<rparr>)"
    and T: "timers st' = (timers st)(next_timer st \<mapsto>
         (sid, now st + default_heartbeat (heartbeat_interval opts)))"
    using cf(1) by blast
  have nH: "map_of (heartbeats st) sid = None"
    using knownD(3)[OF winvD(5)[OF w], of sid] f by (cases "map_of (heartbeats st) sid") auto
  have nF: "sid \<notin> set (stopFnSet st)" using knownD(1)[OF winvD(5)[OF w], of sid] f by auto
  have nP: "sid \<notin> set P" using knownD(2)[OF winvD(5)[OF w], of sid] f by auto
  have nL: "sid \<notin> snd ` set (pubsub st)"
  proof
    assume "sid \<in> snd ` set (pubsub st)"
    then obtain k where "(k, sid) \<in> set (pubsub st)" by auto
    then have "handle_of st sid = Some k" using listeners_okD(1)[OF winvD(4)[OF w]] by blast
    then show False using f by (simp add: handle_of_def)
  qed
  show "distinct P" using winvD(1)[OF w] .
  show "subs_ok P st'"
    unfolding subs_ok_def
  proof (intro allI impI)
    fix s' sub' assume a: "subs st' s' = Some sub'"
    show "sub_ok P st' s' sub'"
    proof (cases "s' = sid")
      case True
      then show ?thesis using a nF nP nL unfolding S by (auto simp: sub_ok_def cf)
    next
      case False
      then have b: "subs st s' = Some sub'" using a unfolding S by simp
      have "sub_ok P st' s' sub' = sub_ok P st s' sub'"
        using False by (intro sub_ok_cong) (simp_all add: cf AList.update_conv')
      then show ?thesis using sub_okD[OF w b] by simp
    qed
  qed
  show "timers_ok st'"
  proof (rule timers_ok_arm[where sid = sid and st = st])
    show "timers_ok st" using winvD(3)[OF w] .
    show "timers st h \<noteq> Some (sid, d)" for h d
      using timers_okD(1)[OF winvD(3)[OF w], of h sid d] nH by auto
    show "timers st' = (timers st)(next_timer st \<mapsto>
         (sid, now st + default_heartbeat (heartbeat_interval opts)))" using T .
    show "next_timer st' = Suc (next_timer st)" using cf(2) .
    show "map_of (heartbeats st') = (map_of (heartbeats st))(sid \<mapsto> next_timer st)"
      by (simp add: cf AList.update_conv')
  qed
  have "handle_of st' s = handle_of st s" for s
    using f unfolding S handle_of_def by (cases "s = sid") (simp_all add: S)
  then have "handle_of st' = handle_of st" by (simp add: fun_eq_iff)
  then have "listeners_ok st' = listeners_ok st"
    by (intro listeners_ok_cong) (simp_all add: cf)
  then show "listeners_ok st'" using winvD(4)[OF w] by simp
  show "known P st'"
    unfolding known_def
  proof (intro allI impI)
    fix s assume a: "s \<in> set (stopFnSet st') \<or> s \<in> set P \<or> map_of (heartbeats st') s \<noteq> None"
    show "subs st' s \<noteq> None"
    proof (cases "s = sid")
      case True then show ?thesis unfolding S by simp
    next
      case False
      then have "s \<in> set (stopFnSet st) \<or> s \<in> set P \<or> map_of (heartbeats st) s \<noteq> None"
        using a by (simp add: cf AList.update_conv')
      then show ?thesis using winvD(5)[OF w] False unfolding known_def S by auto
    qed
  qed
  show "config_ok st'"
    using winvD(6)[OF w] o unfolding config_ok_def S
    by (auto simp: cf)
qed

text \<open>The calls through the variables and the reactions built from them.\<close>

lemma W_call_stop: "W st \<Longrightarrow> call_stopSubscription sid e st = Inr st' \<Longrightarrow> W st'"
  using W_stop[of st sid e]
  by (auto simp: call_stopSubscription_def split: option.splits stop_ref.splits)

lemma W_call_push: "W st \<Longrightarrow> call_pushFn sid v st = Inr st' \<Longrightarrow> W st'"
  using winv_push[of "microtasks st" st sid v]
  by (auto simp: call_pushFn_def repeater_push_def
           split: option.splits push_ref.splits repeater_state.splits)


lemma W_or_uncaught: "W st \<Longrightarrow> (\<And>st'. r = Inr st' \<Longrightarrow> W st') \<Longrightarrow> W (or_uncaught st r)"
  by (cases r) (simp_all add: or_uncaught_def)

lemma W_on_catch: "W st \<Longrightarrow> W (on_catch sid e st)"
  unfolding on_catch_def by (rule W_or_uncaught) (auto intro: W_call_stop)

lemma W_on_resJson: "W st \<Longrightarrow> on_resJson sid rj st = Inr st' \<Longrightarrow> W st'"
  unfolding on_resJson_def
  by (auto split: option.splits if_splits sum.splits intro: W_call_stop W_call_push)

lemma W_fetch_settled: "W st \<Longrightarrow> W (fetch_settled sid r st)"
  unfolding fetch_settled_def
  by (auto split: fetch_result.splits sum.splits json_result.splits if_splits
           intro: W_on_catch W_on_resJson W_call_stop)

text \<open>The listener.\<close>

lemma pubsub_stop [simp]: "pubsub (repeater_stop sid e st) = pubsub st"
  by (simp add: repeater_stop_def split: option.splits repeater_state.splits)

lemma pubsub_push [simp]: "pubsub (repeater_push sid v st) = pubsub st"
  by (simp add: repeater_push_def split: option.splits repeater_state.splits)

lemma pubsub_call_stop: "call_stopSubscription sid e st = Inr st' \<Longrightarrow> pubsub st' = pubsub st"
  by (auto simp: call_stopSubscription_def split: option.splits stop_ref.splits)

lemma pubsub_or_uncaught:
  "(\<And>st'. r = Inr st' \<Longrightarrow> pubsub st' = pubsub st) \<Longrightarrow> pubsub (or_uncaught st r) = pubsub st"
  by (cases r) (simp_all add: or_uncaught_def)

lemma pubsub_stop_or_uncaught [simp]:
  "pubsub (or_uncaught st (call_stopSubscription sid e st)) = pubsub st"
  by (rule pubsub_or_uncaught) (rule pubsub_call_stop)

lemma pubsub_dispatch [simp]: "pubsub (dispatch sid a st) = pubsub st"
  unfolding dispatch_def by (simp split: callback_action.splits option.splits)

lemma pubsub_handler [simp]: "pubsub (handler sid msg st) = pubsub st"
  by (simp add: handler_def rearm_fields split: option.splits)

lemma microtasks_push [simp]: "microtasks (repeater_push sid v st) = microtasks st"
  by (simp add: repeater_push_def split: option.splits repeater_state.splits)

lemma W_push: "W st \<Longrightarrow> W (repeater_push sid v st)"
  using winv_push[of "microtasks st" st sid v] by simp

lemma W_stop_or_uncaught: "W st \<Longrightarrow> W (or_uncaught st (call_stopSubscription sid e st))"
  by (rule W_or_uncaught) (auto intro: W_call_stop)

lemma W_dispatch: "W st \<Longrightarrow> W (dispatch sid a st)"
  unfolding dispatch_def
  by (simp add: winv_push W_stop_or_uncaught split: callback_action.splits option.splits)

lemma W_rearm: "W st \<Longrightarrow> sid \<in> snd ` set (pubsub st) \<Longrightarrow> W (rearm sid i st)"
  using winv_rearm[of "microtasks st" st sid i] by (simp add: rearm_fields)

lemma W_handler: "W st \<Longrightarrow> sid \<in> snd ` set (pubsub st) \<Longrightarrow> W (handler sid msg st)"
  by (auto simp: handler_def split: option.splits intro!: W_dispatch W_rearm)

lemma W_fold_handler:
  "W st \<Longrightarrow> (ls \<noteq> [] \<longrightarrow> sid \<in> snd ` set (pubsub st)) \<Longrightarrow>
     W (fold (\<lambda>l. handler sid msg) ls st)"
proof (induction ls arbitrary: st)
  case Nil then show ?case by simp
next
  case (Cons l ls)
  have "W (handler sid msg st)" using Cons.prems by (intro W_handler) simp_all
  moreover have "sid \<in> snd ` set (pubsub (handler sid msg st))" using Cons.prems by simp
  ultimately show ?case using Cons.IH[of "handler sid msg st"] by simp
qed

lemma W_publish: "W st \<Longrightarrow> W (publish sid msg st)"
  unfolding publish_def
proof (rule W_fold_handler)
  show "filter (\<lambda>l. snd l = sid) (pubsub st) \<noteq> [] \<longrightarrow> sid \<in> snd ` set (pubsub st)"
    by (auto simp: filter_empty_conv)
qed

text \<open>Timers and disposal.\<close>

lemma winv_timers_remove: "winv P st \<Longrightarrow> winv P (st\<lparr>timers := (timers st)(h := None)\<rparr>)"
  by (simp add: winv_def timers_ok_clear)

lemma W_fire: "W st \<Longrightarrow> W (fire h st)"
proof (cases "timers st h")
  case None
  assume "W st" then show ?thesis using None by (simp add: fire_def)
next
  case (Some p)
  assume w: "W st"
  obtain owner deadline where p: "p = (owner, deadline)" by (cases p)
  have w1: "W (st\<lparr>timers := (timers st)(h := None)\<rparr>)"
    using winv_timers_remove[OF w, of h] by simp
  show ?thesis using Some p
    by (simp add: fire_def Let_def) (rule W_or_uncaught[OF w1], rule W_call_stop[OF w1])
qed

lemma inv_fold_fire:
  "inv st \<Longrightarrow> inv (fold (\<lambda>h s. if due t h s then drain (fire h s) else s) hs st)"
proof (induction hs arbitrary: st)
  case Nil then show ?case by simp
next
  case (Cons h hs)
  have "inv (drain (fire h st))" using Cons.prems by (intro inv_drain W_fire inv_W)
  then show ?case using Cons by simp
qed

lemma inv_now: "inv st \<Longrightarrow> inv (st\<lparr>now := t\<rparr>)"
  by (simp add: inv_def)

lemma inv_elapse: "inv st \<Longrightarrow> inv (elapse dt st)"
  unfolding elapse_def by (intro inv_now inv_fold_fire)

lemma W_fold_stop: "W st \<Longrightarrow> W (fold (\<lambda>stop s. repeater_stop stop None s) fs st)"
  by (induction fs arbitrary: st) (simp_all add: W_stop)

lemma W_clearTimeout: "W st \<Longrightarrow> W (clearTimeout h st)"
  using winv_clearTimeout[of "microtasks st" st h]
  by (cases h) (simp_all add: clearTimeout_def)

lemma W_fold_clear: "W st \<Longrightarrow> W (fold (\<lambda>interval s. clearTimeout (Some interval) s) hs st)"
  by (induction hs arbitrary: st) (simp_all add: W_clearTimeout)

lemma W_dispose: "W st \<Longrightarrow> W (asyncDispose st)"
  unfolding asyncDispose_def Let_def by (intro W_fold_clear W_fold_stop)

text \<open>Every event keeps the invariant.\<close>

lemma inv_step:
  assumes i: "inv st" and f: "\<And>sid. e = Subscribe sid \<Longrightarrow> subs st sid = None"
  shows "inv (step st e)"
proof (cases e)
  case (Subscribe sid)
  show ?thesis
  proof (cases "httpCallbackExecutor sid st")
    case (Inl err) then show ?thesis using i Subscribe by (simp add: step_def)
  next
    case (Inr st')
    have "winv [] st'" using winv_create[OF _ Inr f[OF Subscribe], of "[]"] i by (simp add: inv_def)
    moreover have "microtasks st' = []" using create_fields(7)[OF Inr] i by (simp add: inv_def)
    ultimately show ?thesis using Subscribe Inr by (simp add: step_def inv_def)
  qed
next
  case (Pull sid)
  then show ?thesis using i by (simp add: step_def inv_drain W_next inv_W)
next
  case (Cancel sid)
  then show ?thesis using i by (simp add: step_def inv_drain W_return inv_W)
next
  case (Settle sid r)
  show ?thesis
  proof (cases "subs st sid")
    case None then show ?thesis using i Settle by (simp add: step_def)
  next
    case (Some sub)
    have "W (st\<lparr>subs := (subs st)(sid \<mapsto> sub\<lparr>fetch_pending := False\<rparr>)\<rparr>)"
      using winv_fetch_flag[OF inv_W[OF i] Some, of False] by simp
    then show ?thesis using i Settle Some by (simp add: step_def inv_drain W_fetch_settled)
  qed
next
  case (Deliver sid msg)
  then show ?thesis using i by (simp add: step_def inv_drain W_publish inv_W)
next
  case (Elapse dt)
  then show ?thesis using i by (simp add: step_def inv_elapse)
next
  case Dispose
  then show ?thesis using i by (simp add: step_def inv_drain W_dispose inv_W)
qed

lemma inv_run: "inv st \<Longrightarrow> admissible st es \<Longrightarrow> inv (run st es)"
proof (induction es arbitrary: st)
  case Nil then show ?case by (simp add: run_def)
next
  case (Cons e es)
  have "inv (step st e)" using Cons.prems by (intro inv_step) auto
  then show ?case using Cons.IH[of "step st e"] Cons.prems(2) by (simp add: run_def)
qed

lemma inv_init:
  assumes "getSubgraphExecutor JSON_parse url uuid entry (Some ([], n)) = Inr st"
  shows "inv st"
proof -
  have "subs st = Map.empty \<and> heartbeats st = [] \<and> stopFnSet st = [] \<and> pubsub st = [] \<and>
        microtasks st = [] \<and> timers st = Map.empty"
    using assms
    by (auto simp: getSubgraphExecutor_def split: headers_config.splits sum.splits)
  then show ?thesis
    by (simp add: inv_def winv_def subs_ok_def timers_ok_def listeners_ok_def known_def
        config_ok_def handle_of_def)
qed

section \<open>The configuration never changes\<close>

lemma cfg_upd [simp]:
  "config_of (st\<lparr>subs := a\<rparr>) = config_of st"
  "config_of (st\<lparr>timers := b\<rparr>) = config_of st"
  "config_of (st\<lparr>next_timer := c\<rparr>) = config_of st"
  "config_of (st\<lparr>heartbeats := d\<rparr>) = config_of st"
  "config_of (st\<lparr>stopFnSet := e\<rparr>) = config_of st"
  "config_of (st\<lparr>pubsub := f\<rparr>) = config_of st"
  "config_of (st\<lparr>next_subId := g\<rparr>) = config_of st"
  "config_of (st\<lparr>now := h\<rparr>) = config_of st"
  "config_of (st\<lparr>microtasks := i\<rparr>) = config_of st"
  "config_of (st\<lparr>uncaught := j\<rparr>) = config_of st"
  by (simp_all add: config_of_def)

lemma cfg_clearTimeout [simp]: "config_of (clearTimeout h st) = config_of st"
  by (simp add: clearTimeout_def split: option.splits)

lemma cfg_stop [simp]: "config_of (repeater_stop sid e st) = config_of st"
  by (simp add: repeater_stop_def split: option.splits repeater_state.splits)

lemma cfg_push [simp]: "config_of (repeater_push sid v st) = config_of st"
  by (simp add: repeater_push_def split: option.splits repeater_state.splits)

lemma cfg_cleanup [simp]: "config_of (cleanup sid st) = config_of st"
  by (cases "subs st sid") (simp_all add: cleanup_unknown config_of_def cleanup_fields)

lemma cfg_fold_cleanup [simp]: "config_of (fold cleanup Q st) = config_of st"
  by (induction Q arbitrary: st) simp_all

lemma cfg_drain [simp]: "config_of (drain st) = config_of st"
  by (simp add: drain_def)

lemma cfg_call_stop: "call_stopSubscription sid e st = Inr st' \<Longrightarrow> config_of st' = config_of st"
  by (auto simp: call_stopSubscription_def split: option.splits stop_ref.splits)

lemma cfg_call_push: "call_pushFn sid v st = Inr st' \<Longrightarrow> config_of st' = config_of st"
  by (auto simp: call_pushFn_def split: option.splits push_ref.splits)

lemma cfg_stop_or_uncaught [simp]:
  "config_of (or_uncaught st (call_stopSubscription sid e st)) = config_of st"
  by (cases "call_stopSubscription sid e st") (simp_all add: or_uncaught_def cfg_call_stop)

lemma cfg_on_catch [simp]: "config_of (on_catch sid e st) = config_of st"
  by (simp add: on_catch_def)

lemma cfg_on_resJson: "on_resJson sid rj st = Inr st' \<Longrightarrow> config_of st' = config_of st"
proof (cases "errors rj")
  case (Some es)
  assume "on_resJson sid rj st = Inr st'"
  then show ?thesis using Some
    by (auto simp: on_resJson_def split: if_splits dest: cfg_call_stop)
next
  case None
  assume a: "on_resJson sid rj st = Inr st'"
  show ?thesis
  proof (cases "data rj")
    case None
    then show ?thesis using a \<open>errors rj = None\<close> by (simp add: on_resJson_def)
  next
    case (Some d)
    then obtain st1 where "call_pushFn sid d st = Inr st1" "call_stopSubscription sid None st1 = Inr st'"
      using a \<open>errors rj = None\<close> by (auto simp: on_resJson_def split: sum.splits)
    then show ?thesis using cfg_call_push cfg_call_stop by metis
  qed
qed

lemma cfg_fetch_settled [simp]: "config_of (fetch_settled sid r st) = config_of st"
proof (cases r)
  case (FetchRejected e)
  then show ?thesis by (simp add: fetch_settled_def)
next
  case (FetchResolved res)
  define r1 where "r1 = (if \<not> ok res then call_stopSubscription sid (Some (http_error (status res))) st
                 else Inr st)"
  show ?thesis
  proof (cases r1)
    case (Inl e)
    then show ?thesis using FetchResolved by (simp add: fetch_settled_def r1_def)
  next
    case (Inr st1)
    then have c1: "config_of st1 = config_of st"
      by (auto simp: r1_def split: if_splits dest: cfg_call_stop)
    show ?thesis
    proof (cases "json res")
      case (JsonRejected e)
      then show ?thesis using FetchResolved Inr c1 by (simp add: fetch_settled_def r1_def)
    next
      case (Json rj)
      show ?thesis
      proof (cases "on_resJson sid rj st1")
        case (Inl e)
        then show ?thesis using FetchResolved Inr Json c1 by (simp add: fetch_settled_def r1_def)
      next
        case (Inr st2)
        then show ?thesis using FetchResolved \<open>r1 = Inr st1\<close> Json c1 cfg_on_resJson[OF Inr]
          by (simp add: fetch_settled_def r1_def)
      qed
    qed
  qed
qed

lemma cfg_rearm [simp]: "config_of (rearm sid i st) = config_of st"
  by (simp add: config_of_def rearm_fields)

lemma cfg_dispatch [simp]: "config_of (dispatch sid a st) = config_of st"
  by (simp add: dispatch_def split: callback_action.splits option.splits)

lemma cfg_handler [simp]: "config_of (handler sid msg st) = config_of st"
  by (simp add: handler_def split: option.splits)

lemma cfg_publish [simp]: "config_of (publish sid msg st) = config_of st"
proof -
  have "config_of (fold (\<lambda>l. handler sid msg) ls st) = config_of st" for ls :: "(nat \<times> sub_id) list"
    by (induction ls arbitrary: st) simp_all
  then show ?thesis by (simp add: publish_def)
qed

lemma cfg_fire [simp]: "config_of (fire h st) = config_of st"
proof (cases "timers st h")
  case None then show ?thesis by (simp add: fire_def)
next
  case (Some p)
  obtain owner deadline where "p = (owner, deadline)" by (cases p)
  then show ?thesis using Some
    cfg_stop_or_uncaught[of "st\<lparr>timers := (timers st)(h := None)\<rparr>" owner]
    by (simp add: fire_def Let_def)
qed

lemma cfg_elapse [simp]: "config_of (elapse dt st) = config_of st"
proof -
  have "config_of (fold (\<lambda>h s. if due t h s then drain (fire h s) else s) hs st) = config_of st" for t hs
    by (induction hs arbitrary: st) simp_all
  then show ?thesis by (simp add: elapse_def)
qed

lemma cfg_dispose [simp]: "config_of (asyncDispose st) = config_of st"
proof -
  have a: "config_of (fold (\<lambda>stop s. repeater_stop stop None s) fs st) = config_of st" for fs st
    by (induction fs arbitrary: st) simp_all
  have b: "config_of (fold (\<lambda>interval s. clearTimeout (Some interval) s) hs st) = config_of st" for hs st
    by (induction hs arbitrary: st) simp_all
  show ?thesis by (simp add: asyncDispose_def Let_def a b)
qed

lemma cfg_next [simp]: "config_of (repeater_next sid st) = config_of st"
  by (simp add: repeater_next_def repeater_execute_def split: option.splits)

lemma cfg_return [simp]: "config_of (repeater_return sid st) = config_of st"
  by (simp add: repeater_return_def split: option.splits repeater_state.splits)

lemma cfg_create: "httpCallbackExecutor sid st = Inr st' \<Longrightarrow> config_of st' = config_of st"
  by (simp add: config_of_def create_fields)

lemma cfg_step [simp]: "config_of (step st e) = config_of st"
  by (cases e) (auto simp: step_def cfg_create split: sum.splits option.splits)

lemma cfg_run [simp]: "config_of (run st es) = config_of st"
  unfolding run_def by (induction es arbitrary: st) simp_all

lemma cfg_init:
  "getSubgraphExecutor JSON_parse url uuid entry bus = Inr st \<Longrightarrow> config_of st = (uuid, entry)"
  by (auto simp: getSubgraphExecutor_def config_of_def
           split: headers_config.splits sum.splits option.splits)

lemma reach_inv:
  "getSubgraphExecutor JSON_parse url uuid entry (Some ([], n)) = Inr st0 \<Longrightarrow> admissible st0 es \<Longrightarrow>
     inv (run st0 es)"
  by (intro inv_run inv_init)

lemma reach_setup:
  assumes "getSubgraphExecutor JSON_parse url uuid entry bus = Inr st0"
  shows "verifier (run st0 es) = uuid" "transportEntry (run st0 es) = entry"
  using cfg_run[of st0 es] cfg_init[OF assms] by (simp_all add: config_of_def)

section \<open>What the operations leave alone\<close>

lemma stop_fields:
  "timers (repeater_stop sid e st) = timers st"
  "next_timer (repeater_stop sid e st) = next_timer st"
  "heartbeats (repeater_stop sid e st) = heartbeats st"
  "stopFnSet (repeater_stop sid e st) = stopFnSet st"
  "next_subId (repeater_stop sid e st) = next_subId st"
  "now (repeater_stop sid e st) = now st"
  "uncaught (repeater_stop sid e st) = uncaught st"
  by (simp_all add: repeater_stop_def split: option.splits repeater_state.splits)

lemma push_fields:
  "timers (repeater_push sid v st) = timers st"
  "next_timer (repeater_push sid v st) = next_timer st"
  "heartbeats (repeater_push sid v st) = heartbeats st"
  "stopFnSet (repeater_push sid v st) = stopFnSet st"
  "next_subId (repeater_push sid v st) = next_subId st"
  "now (repeater_push sid v st) = now st"
  "uncaught (repeater_push sid v st) = uncaught st"
  by (simp_all add: repeater_push_def split: option.splits repeater_state.splits)

lemma stop_or_uncaught_fields:
  "timers (or_uncaught st (call_stopSubscription sid e st)) = timers st"
  "next_timer (or_uncaught st (call_stopSubscription sid e st)) = next_timer st"
  "heartbeats (or_uncaught st (call_stopSubscription sid e st)) = heartbeats st"
  "stopFnSet (or_uncaught st (call_stopSubscription sid e st)) = stopFnSet st"
  "next_subId (or_uncaught st (call_stopSubscription sid e st)) = next_subId st"
  "now (or_uncaught st (call_stopSubscription sid e st)) = now st"
  by (simp_all add: or_uncaught_def call_stopSubscription_def stop_fields
        split: option.splits stop_ref.splits)

lemma dispatch_fields:
  "timers (dispatch sid a st) = timers st"
  "next_timer (dispatch sid a st) = next_timer st"
  "heartbeats (dispatch sid a st) = heartbeats st"
  "stopFnSet (dispatch sid a st) = stopFnSet st"
  "next_subId (dispatch sid a st) = next_subId st"
  "now (dispatch sid a st) = now st"
  by (simp_all add: dispatch_def push_fields stop_or_uncaught_fields
        split: callback_action.splits option.splits)

lemma handler_accepted:
  "subs st sid = Some sub \<Longrightarrow> msg_verifier msg = verifier st \<Longrightarrow>
     handler sid msg st = dispatch sid (action msg) (rearm sid (heartbeatIntervalMs sub) st)"
  by (simp add: handler_def)

lemma config_okD:
  assumes "inv st" "subs st sid = Some sub" "options (transportEntry st) = Some opts"
  shows "heartbeatIntervalMs sub = default_heartbeat (heartbeat_interval opts)"
    and "ext_heartbeatIntervalMs (fetchBody sub) = default_heartbeat (heartbeat_interval opts)"
    and "ext_verifier (fetchBody sub) = verifier st"
    and "ext_subscriptionId (fetchBody sub) = sid"
  using assms unfolding inv_def winv_def config_ok_def by fastforce+

lemma singleton_list:
  assumes "distinct (map f xs)" "xs \<noteq> []" "\<And>y. y \<in> set xs \<Longrightarrow> y = x"
  shows "xs = [x]"
proof (cases xs)
  case Nil then show ?thesis using assms(2) by simp
next
  case (Cons a as)
  have "as = []"
  proof (cases as)
    case Nil then show ?thesis .
  next
    case (Cons b bs)
    then have "a = x" "b = x" using assms(3) \<open>xs = a # as\<close> by auto
    then show ?thesis using assms(1) \<open>xs = a # as\<close> Cons by simp
  qed
  then show ?thesis using Cons assms(3)[of a] by simp
qed

lemma listeners_single:
  assumes i: "inv st" and s: "subs st sid = Some sub" and r: "repeater sub = Started"
  shows "filter (\<lambda>l. snd l = sid) (pubsub st) = [(the (subId sub), sid)]"
proof (rule singleton_list[where f = fst])
  have w: "winv [] st" using i by (simp add: inv_def)
  note ph = started_wired[OF sub_okD[OF w s] r]
  show "distinct (map fst (filter (\<lambda>l. snd l = sid) (pubsub st)))"
    using listeners_okD(3)[OF winvD(4)[OF w]] by (simp add: distinct_map_filter)
  show "filter (\<lambda>l. snd l = sid) (pubsub st) \<noteq> []"
    using ph by (auto simp: filter_empty_conv intro!: bexI[of _ "(the (subId sub), sid)"])
  fix y assume "y \<in> set (filter (\<lambda>l. snd l = sid) (pubsub st))"
  then have y: "(fst y, sid) \<in> set (pubsub st)" "snd y = sid" by auto
  have "handle_of st sid = Some (fst y)" using listeners_okD(1)[OF winvD(4)[OF w] y(1)] .
  then have "fst y = the (subId sub)" using s by (simp add: handle_of_def)
  then show "y = (the (subId sub), sid)" using y(2) by (cases y) simp
qed

lemma publish_single:
  assumes "inv st" "subs st sid = Some sub" "repeater sub = Started"
  shows "publish sid msg st = handler sid msg st"
  by (simp add: publish_def listeners_single[OF assms])

lemma rearm_others:
  assumes t: "timers_ok st" and x: "s \<noteq> sid" and a: "timers st h = Some (s, d)"
  shows "timers (rearm sid i st) h = Some (s, d)"
proof -
  have H: "map_of (heartbeats st) s = Some h" using timers_okD(1)[OF t a] .
  then have "h \<noteq> next_timer st" using timers_okD(2)[OF t] by fastforce
  moreover have "map_of (heartbeats st) sid \<noteq> Some h" using timers_okD(3)[OF t H] x by auto
  ultimately show ?thesis using a by (auto simp: rearm_fields split: option.splits)
qed

lemma rearm_own:
  assumes t: "timers_ok st" and a: "timers (rearm sid i st) h = Some (sid, d)"
  shows "h = next_timer st \<and> d = now st + i"
proof (cases "h = next_timer st")
  case True then show ?thesis using a by (simp add: rearm_fields)
next
  case False
  have "timers (rearm sid i st) h = timers (clearTimeout (map_of (heartbeats st) sid) st) h"
    using False by (cases "map_of (heartbeats st) sid") (simp_all add: rearm_fields clearTimeout_def)
  then show ?thesis using a no_timer_after_clear[OF t, of sid h d] by simp
qed

lemma rearm_clears_old:
  "map_of (heartbeats st) sid = Some h \<Longrightarrow> timers_ok st \<Longrightarrow> timers (rearm sid i st) h = None"
  using timers_okD(2)[of st sid h] by (auto simp: rearm_fields)

lemma inv_timers_ok: "inv st \<Longrightarrow> timers_ok st"
  by (simp add: inv_def winv_def)

lemma clear_heartbeat_idem: "clear_heartbeat sid (clear_heartbeat sid st) = clear_heartbeat sid st"
  by (cases "map_of (heartbeats st) sid")
     (simp_all add: clear_heartbeat_def clearTimeout_def Let_def AList.delete_conv' AList.delete_idem)

lemma clear_heartbeat_absent:
  assumes "map_of (heartbeats st) sid = None"
  shows "clear_heartbeat sid st = st"
proof -
  have "AList.delete sid (heartbeats st) = heartbeats st"
    using assms by (simp add: map_of_eq_None_iff)
  then show ?thesis using assms by (simp add: clear_heartbeat_def clearTimeout_def)
qed

lemma clearTimeout_idem: "clearTimeout x (clearTimeout x st) = clearTimeout x st"
  by (cases x) (simp_all add: clearTimeout_def)

lemma one_timer:
  assumes "timers_ok st" "timers st h = Some (sid, d)" "timers st h' = Some (sid, d')"
  shows "h = h' \<and> d = d'"
proof -
  have "map_of (heartbeats st) sid = Some h" "map_of (heartbeats st) sid = Some h'"
    using timers_okD(1)[OF assms(1)] assms(2,3) by blast+
  then have "h = h'" by simp
  then show ?thesis using assms(2,3) by simp
qed

section \<open>A sequence that has ended stays as it is\<close>

lemma settled_upd [simp]:
  "settled sid r p (st\<lparr>timers := b\<rparr>) = settled sid r p st"
  "settled sid r p (st\<lparr>next_timer := c\<rparr>) = settled sid r p st"
  "settled sid r p (st\<lparr>heartbeats := d\<rparr>) = settled sid r p st"
  "settled sid r p (st\<lparr>stopFnSet := e\<rparr>) = settled sid r p st"
  "settled sid r p (st\<lparr>pubsub := f\<rparr>) = settled sid r p st"
  "settled sid r p (st\<lparr>next_subId := g\<rparr>) = settled sid r p st"
  "settled sid r p (st\<lparr>now := h\<rparr>) = settled sid r p st"
  "settled sid r p (st\<lparr>microtasks := i\<rparr>) = settled sid r p st"
  "settled sid r p (st\<lparr>uncaught := j\<rparr>) = settled sid r p st"
  by (simp_all add: settled_def)

lemma settled_cong: "subs st' sid = subs st sid \<Longrightarrow> settled sid r p st' = settled sid r p st"
  by (simp add: settled_def)

lemma settled_clearTimeout: "settled sid r p st \<Longrightarrow> settled sid r p (clearTimeout h st)"
  by (cases h) (simp_all add: clearTimeout_def)

lemma settled_stop: "settled sid r p st \<Longrightarrow> settled sid r p (repeater_stop s e st)"
  by (auto simp: settled_def repeater_stop_def split: option.splits repeater_state.splits)

lemma settled_push: "settled sid r p st \<Longrightarrow> settled sid r p (repeater_push s v st)"
  by (auto simp: settled_def repeater_push_def split: option.splits repeater_state.splits)

lemma settled_cleanup: "settled sid r p st \<Longrightarrow> settled sid r p (cleanup s st)"
proof (cases "subs st s")
  case None
  assume "settled sid r p st" then show ?thesis using None by (simp add: cleanup_unknown)
next
  case (Some x)
  assume a: "settled sid r p st"
  have f: "subs (cleanup s st) = (subs st)(s \<mapsto> x\<lparr>cleanups := Suc (cleanups x)\<rparr>)"
    using Some by (rule cleanup_fields(5))
  show ?thesis
  proof (cases "s = sid")
    case True
    then have "repeater x = Stopped r" "pushed x = p" using a Some by (auto simp: settled_def)
    then show ?thesis unfolding settled_def f using True by simp
  next
    case False
    then show ?thesis using a unfolding settled_def f by simp
  qed
qed

lemma settled_fold_cleanup: "settled sid r p st \<Longrightarrow> settled sid r p (fold cleanup Q st)"
  by (induction Q arbitrary: st) (simp_all add: settled_cleanup)

lemma settled_drain: "settled sid r p st \<Longrightarrow> settled sid r p (drain st)"
  by (simp add: drain_def settled_fold_cleanup)

lemma settled_call_stop:
  "settled sid r p st \<Longrightarrow> call_stopSubscription s e st = Inr st' \<Longrightarrow> settled sid r p st'"
  by (auto simp: call_stopSubscription_def settled_stop split: option.splits stop_ref.splits)

lemma settled_call_push:
  "settled sid r p st \<Longrightarrow> call_pushFn s v st = Inr st' \<Longrightarrow> settled sid r p st'"
  by (auto simp: call_pushFn_def settled_push split: option.splits push_ref.splits)

lemma settled_stop_or_uncaught:
  "settled sid r p st \<Longrightarrow> settled sid r p (or_uncaught st (call_stopSubscription s e st))"
  by (cases "call_stopSubscription s e st") (simp_all add: or_uncaught_def settled_call_stop)

lemma settled_on_catch: "settled sid r p st \<Longrightarrow> settled sid r p (on_catch s e st)"
  by (simp add: on_catch_def settled_stop_or_uncaught)

lemma settled_on_resJson:
  assumes "settled sid r p st" "on_resJson s rj st = Inr st'"
  shows "settled sid r p st'"
proof (cases "errors rj")
  case (Some es)
  then show ?thesis using assms
    by (auto simp: on_resJson_def split: if_splits dest: settled_call_stop)
next
  case None
  show ?thesis
  proof (cases "data rj")
    case None
    then show ?thesis using assms \<open>errors rj = None\<close> by (simp add: on_resJson_def)
  next
    case (Some d)
    then obtain st1 where "call_pushFn s d st = Inr st1" "call_stopSubscription s None st1 = Inr st'"
      using assms(2) \<open>errors rj = None\<close> by (auto simp: on_resJson_def split: sum.splits)
    then show ?thesis
      using settled_call_stop[OF settled_call_push[OF assms(1)], of s d st1 s None st'] by simp
  qed
qed

lemma settled_fetch_settled:
  assumes a: "settled sid r p st"
  shows "settled sid r p (fetch_settled s x st)"
proof (cases x)
  case (FetchRejected e)
  then show ?thesis using a by (simp add: fetch_settled_def settled_on_catch)
next
  case (FetchResolved res)
  define r1 where "r1 = (if \<not> ok res then call_stopSubscription s (Some (http_error (status res))) st
                 else Inr st)"
  show ?thesis
  proof (cases r1)
    case (Inl e)
    then show ?thesis using FetchResolved a by (simp add: fetch_settled_def r1_def settled_on_catch)
  next
    case (Inr st1)
    then have c1: "settled sid r p st1"
      using a by (auto simp: r1_def split: if_splits dest: settled_call_stop)
    show ?thesis
    proof (cases "json res")
      case (JsonRejected e)
      then show ?thesis using FetchResolved Inr c1
        by (simp add: fetch_settled_def r1_def settled_on_catch)
    next
      case (Json rj)
      show ?thesis
      proof (cases "on_resJson s rj st1")
        case (Inl e)
        then show ?thesis using FetchResolved Inr Json c1
          by (simp add: fetch_settled_def r1_def settled_on_catch)
      next
        case (Inr st2)
        then show ?thesis using FetchResolved \<open>r1 = Inr st1\<close> Json settled_on_resJson[OF c1 Inr]
          by (simp add: fetch_settled_def r1_def)
      qed
    qed
  qed
qed

lemma settled_rearm: "settled sid r p st \<Longrightarrow> settled sid r p (rearm s i st)"
  by (simp add: settled_def rearm_fields)

lemma settled_dispatch: "settled sid r p st \<Longrightarrow> settled sid r p (dispatch s a st)"
  by (simp add: dispatch_def settled_push settled_stop_or_uncaught
        split: callback_action.splits option.splits)

lemma settled_handler: "settled sid r p st \<Longrightarrow> settled sid r p (handler s msg st)"
  by (simp add: handler_def settled_dispatch settled_rearm split: option.splits)

lemma settled_publish: "settled sid r p st \<Longrightarrow> settled sid r p (publish s msg st)"
proof -
  have "settled sid r p st \<Longrightarrow> settled sid r p (fold (\<lambda>l. handler s msg) ls st)"
    for ls :: "(nat \<times> sub_id) list" and st
    by (induction ls arbitrary: st) (simp_all add: settled_handler)
  then show "settled sid r p st \<Longrightarrow> settled sid r p (publish s msg st)"
    by (simp add: publish_def)
qed

lemma settled_fire: "settled sid r p st \<Longrightarrow> settled sid r p (fire h st)"
proof (cases "timers st h")
  case None
  assume "settled sid r p st" then show ?thesis using None by (simp add: fire_def)
next
  case (Some x)
  assume a: "settled sid r p st"
  obtain owner deadline where "x = (owner, deadline)" by (cases x)
  then show ?thesis using Some a
    settled_stop_or_uncaught[of sid r p "st\<lparr>timers := (timers st)(h := None)\<rparr>" owner]
    by (simp add: fire_def Let_def)
qed

lemma settled_elapse: "settled sid r p st \<Longrightarrow> settled sid r p (elapse dt st)"
proof -
  have "settled sid r p st \<Longrightarrow>
        settled sid r p (fold (\<lambda>h s. if due t h s then drain (fire h s) else s) hs st)" for t hs st
    by (induction hs arbitrary: st) (simp_all add: settled_drain settled_fire)
  then show "settled sid r p st \<Longrightarrow> settled sid r p (elapse dt st)"
    by (simp add: elapse_def)
qed

lemma settled_dispose: "settled sid r p st \<Longrightarrow> settled sid r p (asyncDispose st)"
proof -
  have a: "settled sid r p st \<Longrightarrow> settled sid r p (fold (\<lambda>stop s. repeater_stop stop None s) fs st)"
    for fs st by (induction fs arbitrary: st) (simp_all add: settled_stop)
  have b: "settled sid r p st \<Longrightarrow>
           settled sid r p (fold (\<lambda>interval s. clearTimeout (Some interval) s) hs st)"
    for hs st by (induction hs arbitrary: st) (simp_all add: settled_clearTimeout)
  show "settled sid r p st \<Longrightarrow> settled sid r p (asyncDispose st)"
    by (simp add: asyncDispose_def Let_def a b)
qed

lemma settled_next: "settled sid r p st \<Longrightarrow> settled sid r p (repeater_next s st)"
  by (auto simp: settled_def repeater_next_def repeater_execute_def split: option.splits)

lemma settled_return: "settled sid r p st \<Longrightarrow> settled sid r p (repeater_return s st)"
  by (auto simp: settled_def repeater_return_def repeater_stop_def
           split: option.splits repeater_state.splits)

lemma create_subs_other:
  "httpCallbackExecutor s st = Inr st' \<Longrightarrow> s \<noteq> sid \<Longrightarrow> subs st' sid = subs st sid"
  by (auto simp: httpCallbackExecutor_def setTimeout_def Let_def split: option.splits sum.splits)

lemma settled_create:
  assumes "settled sid r p st" "httpCallbackExecutor s st = Inr st'" "s \<noteq> sid"
  shows "settled sid r p st'"
  using assms(1) settled_cong[OF create_subs_other[OF assms(2,3)], of r p] by simp

lemma settled_step:
  assumes a: "settled sid r p st" and f: "e \<noteq> Subscribe sid"
  shows "settled sid r p (step st e)"
proof (cases e)
  case (Subscribe s)
  then show ?thesis using a f
    by (auto simp: step_def split: sum.splits intro: settled_create)
next
  case (Pull s) then show ?thesis using a by (simp add: step_def settled_drain settled_next)
next
  case (Cancel s) then show ?thesis using a by (simp add: step_def settled_drain settled_return)
next
  case (Settle s x)
  show ?thesis
  proof (cases "subs st s")
    case None then show ?thesis using a Settle by (simp add: step_def)
  next
    case (Some sub)
    have "settled sid r p (st\<lparr>subs := (subs st)(s \<mapsto> sub\<lparr>fetch_pending := False\<rparr>)\<rparr>)"
      using a Some by (auto simp: settled_def)
    then show ?thesis using a Settle Some
      by (simp add: step_def settled_drain settled_fetch_settled)
  qed
next
  case (Deliver s msg) then show ?thesis using a by (simp add: step_def settled_drain settled_publish)
next
  case (Elapse dt) then show ?thesis using a by (simp add: step_def settled_elapse)
next
  case Dispose then show ?thesis using a by (simp add: step_def settled_drain settled_dispose)
qed

lemma settled_run:
  "settled sid r p st \<Longrightarrow> admissible st es \<Longrightarrow> settled sid r p (run st es)"
proof (induction es arbitrary: st)
  case Nil then show ?case by (simp add: run_def)
next
  case (Cons e es)
  have "e \<noteq> Subscribe sid" using Cons.prems by (auto simp: settled_def)
  then have "settled sid r p (step st e)" using Cons.prems(1) by (intro settled_step)
  then show ?case using Cons.IH[of "step st e"] Cons.prems(2) by (simp add: run_def)
qed

section \<open>Ending a started sequence\<close>

lemma createGraphQLError_same [simp]: "createGraphQLError (message e) e = e"
  by (simp add: createGraphQLError_def)

lemma createGraphQLError_map [simp]: "map (\<lambda>err. createGraphQLError (message err) err) es = es"
  by (induction es) simp_all

lemma call_stop_wired:
  "subs st sid = Some sub \<Longrightarrow> stopSubscription sub = RepeaterStop \<Longrightarrow>
     call_stopSubscription sid e st = Inr (repeater_stop sid e st)"
  by (simp add: call_stopSubscription_def)

lemma call_push_wired:
  "subs st sid = Some sub \<Longrightarrow> pushFn sub = RepeaterPush \<Longrightarrow>
     call_pushFn sid v st = Inr (repeater_push sid v st)"
  by (simp add: call_pushFn_def)

lemma stop_started:
  "subs st sid = Some sub \<Longrightarrow> repeater sub = Started \<Longrightarrow>
     repeater_stop sid e st =
       st\<lparr>subs := (subs st)(sid \<mapsto> sub\<lparr>repeater := Stopped e\<rparr>),
          microtasks := microtasks st @ [sid]\<rparr>"
  by (simp add: repeater_stop_def)

lemma push_started:
  "subs st sid = Some sub \<Longrightarrow> repeater sub = Started \<Longrightarrow>
     repeater_push sid v st = st\<lparr>subs := (subs st)(sid \<mapsto> sub\<lparr>pushed := pushed sub @ [v]\<rparr>)\<rparr>"
  by (simp add: repeater_push_def)

text \<open>
  \<open>stop\<close> on a started sequence, followed by the microtask checkpoint: the sequence has
  ended with the given result and the hook has run once.
\<close>

lemma stop_drain:
  assumes "subs st sid = Some sub" "repeater sub = Started" "microtasks st = []"
  shows "subs (drain (repeater_stop sid e st)) sid =
           Some (sub\<lparr>repeater := Stopped e, cleanups := Suc (cleanups sub)\<rparr>)"
    and "uncaught (drain (repeater_stop sid e st)) = uncaught st"
proof -
  let ?s1 = "st\<lparr>subs := (subs st)(sid \<mapsto> sub\<lparr>repeater := Stopped e\<rparr>), microtasks := []\<rparr>"
  have d: "drain (repeater_stop sid e st) = cleanup sid ?s1"
    using assms by (simp add: stop_started drain_def)
  have s1: "subs ?s1 sid = Some (sub\<lparr>repeater := Stopped e\<rparr>)" by simp
  show "subs (drain (repeater_stop sid e st)) sid =
           Some (sub\<lparr>repeater := Stopped e, cleanups := Suc (cleanups sub)\<rparr>)"
    unfolding d cleanup_fields(5)[OF s1] by simp
  show "uncaught (drain (repeater_stop sid e st)) = uncaught st"
    unfolding d cleanup_fields(10)[OF s1] by simp
qed

lemma wired_of_started:
  assumes "inv st" "subs st sid = Some sub" "repeater sub = Started"
  shows "stopSubscription sub = RepeaterStop" "pushFn sub = RepeaterPush" "cleanups sub = 0"
proof -
  have w: "winv [] st" using assms(1) by (simp add: inv_def)
  note ok = sub_okD[OF w assms(2)]
  show "stopSubscription sub = RepeaterStop" "cleanups sub = 0"
    using started_wired[OF ok assms(3)] by simp_all
  then show "pushFn sub = RepeaterPush" using ok by (simp add: sub_ok_def)
qed

text \<open>A \<open>complete\<close> message that is accepted by a started subscription.\<close>

lemma complete_result:
  assumes i: "inv st" and s: "subs st sid = Some sub" and r: "repeater sub = Started"
    and v: "msg_verifier msg = verifier st" and a: "action msg = Complete errs"
  shows "subs (step st (Deliver sid msg)) sid =
     Some (sub\<lparr>repeater := Stopped
        (case errs of None \<Rightarrow> None
         | Some es \<Rightarrow> Some (if length es = 1 then GraphQLError (es ! 0) else AggregateError es [])),
        cleanups := Suc (cleanups sub)\<rparr>)"
proof -
  let ?r = "rearm sid (heartbeatIntervalMs sub) st"
  let ?e = "case errs of None \<Rightarrow> None
         | Some es \<Rightarrow> Some (if length es = 1 then GraphQLError (es ! 0) else AggregateError es [])"
  note w = wired_of_started[OF i s r]
  have rs: "subs ?r sid = Some sub" "microtasks ?r = []"
    using s i by (simp_all add: rearm_fields inv_def)
  have c: "call_stopSubscription sid x ?r = Inr (repeater_stop sid x ?r)" for x
    using rs(1) w(1) by (rule call_stop_wired)
  have "dispatch sid (Complete errs) ?r = repeater_stop sid ?e ?r"
    by (cases errs) (simp_all add: dispatch_def c or_uncaught_def)
  then have "step st (Deliver sid msg) = drain (repeater_stop sid ?e ?r)"
    using publish_single[OF i s r, of msg] handler_accepted[OF s v] a by (simp add: step_def)
  then show ?thesis using stop_drain(1)[OF rs(1) r rs(2), of ?e] by simp
qed

text \<open>The initiating response, received with status ok by a started subscription.\<close>

lemma response_result:
  assumes i: "inv st" and s: "subs st sid = Some sub" and r: "repeater sub = Started"
    and f: "fetch_pending sub" and o: "ok res" and j: "json res = Json rj"
  shows "errors rj = Some es \<Longrightarrow>
     subs (step st (Settle sid (FetchResolved res))) sid =
       Some (sub\<lparr>fetch_pending := False,
          repeater := Stopped (Some (if length es = 1 then GraphQLError (es ! 0)
                                     else AggregateError es (join [CHR 0x0A] (map message es)))),
          cleanups := Suc (cleanups sub)\<rparr>)"
    and "errors rj = None \<Longrightarrow> data rj = Some d \<Longrightarrow>
     subs (step st (Settle sid (FetchResolved res))) sid =
       Some (sub\<lparr>fetch_pending := False, pushed := pushed sub @ [d], repeater := Stopped None,
          cleanups := Suc (cleanups sub)\<rparr>) \<and>
     uncaught (step st (Settle sid (FetchResolved res))) = uncaught st"
    and "errors rj = None \<Longrightarrow> data rj = None \<Longrightarrow>
     step st (Settle sid (FetchResolved res)) =
       st\<lparr>subs := (subs st)(sid \<mapsto> sub\<lparr>fetch_pending := False\<rparr>)\<rparr>"
proof -
  let ?sub = "sub\<lparr>fetch_pending := False\<rparr>"
  let ?s1 = "st\<lparr>subs := (subs st)(sid \<mapsto> ?sub)\<rparr>"
  note w = wired_of_started[OF i s r]
  have s1: "subs ?s1 sid = Some ?sub" "repeater ?sub = Started" "microtasks ?s1 = []"
    using r i by (simp_all add: inv_def)
  have st: "step st (Settle sid (FetchResolved res)) = drain (fetch_settled sid (FetchResolved res) ?s1)"
    using s f by (simp add: step_def)
  have c: "call_stopSubscription sid x ?s1 = Inr (repeater_stop sid x ?s1)" for x
    using call_stop_wired[OF s1(1), of x] w(1) by simp
  {
    assume e: "errors rj = Some es"
    let ?e = "Some (if length es = 1 then GraphQLError (es ! 0)
                    else AggregateError es (join [CHR 0x0A] (map message es)))"
    have "fetch_settled sid (FetchResolved res) ?s1 = repeater_stop sid ?e ?s1"
      using o j e by (simp add: fetch_settled_def on_resJson_def c)
    then show "subs (step st (Settle sid (FetchResolved res))) sid =
       Some (sub\<lparr>fetch_pending := False, repeater := Stopped ?e, cleanups := Suc (cleanups sub)\<rparr>)"
      using stop_drain(1)[OF s1, of ?e] st by simp
  }
  {
    assume e: "errors rj = None" and d: "data rj = Some d"
    let ?sub2 = "?sub\<lparr>pushed := pushed sub @ [d]\<rparr>"
    let ?s2 = "st\<lparr>subs := (subs st)(sid \<mapsto> ?sub2)\<rparr>"
    have p: "call_pushFn sid d ?s1 = Inr ?s2"
      using call_push_wired[OF s1(1), of d] w(2) push_started[OF s1(1,2), of d] by simp
    have s2: "subs ?s2 sid = Some ?sub2" "repeater ?sub2 = Started" "microtasks ?s2 = []"
      using r i by (simp_all add: inv_def)
    have c2: "call_stopSubscription sid None ?s2 = Inr (repeater_stop sid None ?s2)"
      using call_stop_wired[OF s2(1), of None] w(1) by simp
    have "on_resJson sid rj ?s1 = Inr (repeater_stop sid None ?s2)"
      using e d by (simp only: on_resJson_def p c2 option.case sum.case)
    then have "fetch_settled sid (FetchResolved res) ?s1 = repeater_stop sid None ?s2"
      using o j by (simp only: fetch_settled_def fetch_result.case json_result.case sum.case
          not_True_eq_False if_False simp_thms)
    then show "subs (step st (Settle sid (FetchResolved res))) sid =
       Some (sub\<lparr>fetch_pending := False, pushed := pushed sub @ [d], repeater := Stopped None,
          cleanups := Suc (cleanups sub)\<rparr>) \<and>
     uncaught (step st (Settle sid (FetchResolved res))) = uncaught st"
      using stop_drain[OF s2, of None] st by simp
  }
  {
    assume e: "errors rj = None" and d: "data rj = None"
    have "fetch_settled sid (FetchResolved res) ?s1 = ?s1"
      using o j e d by (simp add: fetch_settled_def on_resJson_def)
    then show "step st (Settle sid (FetchResolved res)) = ?s1"
      using st s1(3) by (simp add: drain_quiet)
  }
qed

lemma ended_clean:
  assumes i: "inv st" and s: "subs st sid = Some sub"
    and w: "stopSubscription sub = RepeaterStop" and r: "repeater sub \<noteq> Started"
  shows "cleanups sub = 1" "sid \<notin> set (stopFnSet st)" "sid \<notin> snd ` set (pubsub st)"
    "map_of (heartbeats st) sid = None" "timers st h \<noteq> Some (sid, d)"
proof -
  have wi: "winv [] st" using i by (simp add: inv_def)
  show a: "cleanups sub = 1" "sid \<notin> set (stopFnSet st)" "sid \<notin> snd ` set (pubsub st)"
    "map_of (heartbeats st) sid = None"
    using sub_okD[OF wi s] w r by (simp_all add: sub_ok_def)
  show "timers st h \<noteq> Some (sid, d)"
    using timers_okD(1)[OF winvD(3)[OF wi], of h sid d] a(4) by auto
qed

lemma settledI: "subs st sid = Some sub \<Longrightarrow> repeater sub = Stopped r \<Longrightarrow> pushed sub = p \<Longrightarrow>
  settled sid r p st"
  by (simp add: settled_def)

lemma settled_iff:
  "subs st sid = Some sub \<Longrightarrow> settled sid r p st = (repeater sub = Stopped r \<and> pushed sub = p)"
  by (simp add: settled_def)

lemma reach_step:
  assumes "getSubgraphExecutor JSON_parse url uuid entry (Some ([], n)) = Inr st0"
    and "admissible st0 es" and "\<And>sid. e = Subscribe sid \<Longrightarrow> subs (run st0 es) sid = None"
  shows "inv (step (run st0 es) e)"
  using reach_inv[OF assms(1,2)] assms(3) by (rule inv_step)

section \<open>Expiry of a heartbeat timer\<close>

lemma stop_other: "s \<noteq> sid \<Longrightarrow> subs (repeater_stop s e st) sid = subs st sid"
  by (simp add: repeater_stop_def split: option.splits repeater_state.splits)

lemma cleanup_other: "s \<noteq> sid \<Longrightarrow> subs (cleanup s st) sid = subs st sid"
  by (cases "subs st s") (simp_all add: cleanup_unknown cleanup_fields(5))

lemma cleanup_timer_other:
  assumes "map_of (heartbeats st) s \<noteq> Some h"
  shows "timers (cleanup s st) h = timers st h"
proof (cases "subs st s")
  case None then show ?thesis by (simp add: cleanup_unknown)
next
  case (Some x)
  show ?thesis using assms by (auto simp: cleanup_fields(2)[OF Some] split: option.splits)
qed

lemma cleanup_now [simp]: "now (cleanup s st) = now st"
  by (cases "subs st s") (simp_all add: cleanup_unknown cleanup_fields(9))

lemma stop_microtasks:
  "microtasks (repeater_stop s e st) = microtasks st \<or>
   microtasks (repeater_stop s e st) = microtasks st @ [s]"
  by (simp add: repeater_stop_def split: option.splits repeater_state.splits)

lemma stop_or_uncaught_microtasks:
  "microtasks (or_uncaught st (call_stopSubscription s e st)) = microtasks st \<or>
   microtasks (or_uncaught st (call_stopSubscription s e st)) = microtasks st @ [s]"
  using stop_microtasks[of s e st]
  by (auto simp: or_uncaught_def call_stopSubscription_def split: option.splits stop_ref.splits)

lemma stop_or_uncaught_other:
  "s \<noteq> sid \<Longrightarrow> subs (or_uncaught st (call_stopSubscription s e st)) sid = subs st sid"
  by (simp add: or_uncaught_def call_stopSubscription_def stop_other
        split: option.splits stop_ref.splits)

text \<open>The timer of another subscription fires: this one keeps its state and its timer.\<close>

lemma fire_other:
  assumes i: "inv st" and x: "timers st x = Some (owner, d')" and o: "owner \<noteq> sid"
    and h: "timers st h = Some (sid, d)"
  shows "subs (drain (fire x st)) sid = subs st sid"
    and "timers (drain (fire x st)) h = Some (sid, d)"
    and "now (drain (fire x st)) = now st"
proof -
  let ?s1 = "st\<lparr>timers := (timers st)(x := None)\<rparr>"
  let ?f = "or_uncaught ?s1 (call_stopSubscription owner (Some (GraphQLError createTimeoutError)) ?s1)"
  have f: "fire x st = ?f" using x by (simp add: fire_def Let_def)
  note t = inv_timers_ok[OF i]
  have hx: "h \<noteq> x" using x h o by auto
  have H: "map_of (heartbeats st) sid = Some h" using timers_okD(1)[OF t h] .
  have Ho: "map_of (heartbeats st) owner \<noteq> Some h" using timers_okD(3)[OF t H] o by auto
  have fs: "subs ?f sid = subs st sid" using stop_or_uncaught_other[OF o, of ?s1] by simp
  have ft: "timers ?f h = Some (sid, d)" using h hx by (simp add: stop_or_uncaught_fields)
  have fh: "heartbeats ?f = heartbeats st" by (simp add: stop_or_uncaught_fields)
  have fn: "now ?f = now st" by (simp add: stop_or_uncaught_fields)
  have m: "microtasks st = []" using i by (simp add: inv_def)
  consider "microtasks ?f = []" | "microtasks ?f = [owner]"
    using stop_or_uncaught_microtasks[of ?s1 owner] m by auto
  then have "subs (drain ?f) sid = subs st sid \<and> timers (drain ?f) h = Some (sid, d) \<and>
             now (drain ?f) = now st"
  proof cases
    case 1
    then show ?thesis using fs ft fn by (simp add: drain_quiet)
  next
    case 2
    have "map_of (heartbeats (?f\<lparr>microtasks := []\<rparr>)) owner \<noteq> Some h" using Ho fh by simp
    then have "timers (cleanup owner (?f\<lparr>microtasks := []\<rparr>)) h = timers (?f\<lparr>microtasks := []\<rparr>) h"
      by (rule cleanup_timer_other)
    then show ?thesis using 2 fs ft fn cleanup_other[OF o, of "?f\<lparr>microtasks := []\<rparr>"]
      by (simp add: drain_def)
  qed
  then show "subs (drain (fire x st)) sid = subs st sid"
    and "timers (drain (fire x st)) h = Some (sid, d)"
    and "now (drain (fire x st)) = now st"
    unfolding f by simp_all
qed

text \<open>The timer of a started subscription fires: the sequence ends with the timeout.\<close>

lemma fire_own:
  assumes i: "inv st" and s: "subs st sid = Some sub" and r: "repeater sub = Started"
    and h: "timers st h = Some (sid, d)"
  shows "settled sid (Some (GraphQLError createTimeoutError)) (pushed sub) (drain (fire h st))"
proof -
  let ?s1 = "st\<lparr>timers := (timers st)(h := None)\<rparr>"
  let ?e = "Some (GraphQLError createTimeoutError)"
  note w = wired_of_started[OF i s r]
  have s1: "subs ?s1 sid = Some sub" "microtasks ?s1 = []" using s i by (simp_all add: inv_def)
  have "call_stopSubscription sid ?e ?s1 = Inr (repeater_stop sid ?e ?s1)"
    using s1(1) w(1) by (rule call_stop_wired)
  then have "fire h st = repeater_stop sid ?e ?s1"
    using h by (simp add: fire_def or_uncaught_def Let_def)
  then show ?thesis using stop_drain(1)[OF s1(1) r s1(2), of ?e] by (simp add: settled_def)
qed

lemma settled_fold_fire:
  "settled sid r p st \<Longrightarrow>
     settled sid r p (fold (\<lambda>h s. if due t h s then drain (fire h s) else s) hs st)"
  by (induction hs arbitrary: st) (simp_all add: settled_drain settled_fire)

lemma fold_fire_timeout:
  assumes "inv st" "subs st sid = Some sub" "repeater sub = Started"
    "timers st h = Some (sid, d)" "d \<le> t" "h \<in> set hs"
  shows "settled sid (Some (GraphQLError createTimeoutError)) (pushed sub)
           (fold (\<lambda>h s. if due t h s then drain (fire h s) else s) hs st)"
  using assms
proof (induction hs arbitrary: st)
  case Nil then show ?case by simp
next
  case (Cons x xs)
  show ?case
  proof (cases "x = h")
    case True
    have "due t h st" using Cons.prems(4,5) by (simp add: due_def)
    moreover have "settled sid (Some (GraphQLError createTimeoutError)) (pushed sub) (drain (fire h st))"
      using Cons.prems(1,2,3,4) by (rule fire_own)
    ultimately show ?thesis using True by (simp add: settled_fold_fire)
  next
    case False
    then have hx: "h \<in> set xs" using Cons.prems(6) by simp
    show ?thesis
    proof (cases "due t x st")
      case False
      then show ?thesis using Cons.IH[OF Cons.prems(1,2,3,4,5) hx] by simp
    next
      case True
      then obtain owner d' where x: "timers st x = Some (owner, d')"
        by (auto simp: due_def split: option.splits)
      have o: "owner \<noteq> sid"
        using one_timer[OF inv_timers_ok[OF Cons.prems(1)], of x sid d' h d] x Cons.prems(4) \<open>x \<noteq> h\<close>
        by auto
      note f = fire_other[OF Cons.prems(1) x o Cons.prems(4)]
      have i': "inv (drain (fire x st))" using Cons.prems(1) by (intro inv_drain W_fire inv_W)
      have "settled sid (Some (GraphQLError createTimeoutError)) (pushed sub)
           (fold (\<lambda>h s. if due t h s then drain (fire h s) else s) xs (drain (fire x st)))"
        using i' f(1) Cons.prems(2,3) f(2) Cons.prems(5) hx by (intro Cons.IH) simp_all
      then show ?thesis using True by simp
    qed
  qed
qed

lemma timer_bound: "inv st \<Longrightarrow> timers st h = Some (sid, d) \<Longrightarrow> h < next_timer st"
  using timers_okD(1,2)[OF inv_timers_ok] by blast

lemma elapse_timeout:
  assumes "inv st" "subs st sid = Some sub" "repeater sub = Started"
    "timers st h = Some (sid, d)" "d \<le> now st + dt"
  shows "settled sid (Some (GraphQLError createTimeoutError)) (pushed sub) (elapse dt st)"
proof -
  have "h \<in> set [0..<next_timer st]" using timer_bound[OF assms(1,4)] by simp
  then show ?thesis using fold_fire_timeout[OF assms(1,2,3,4,5)] by (simp add: elapse_def)
qed



section \<open>Disposal\<close>

lemma stop_idle:
  "(\<And>sub. subs st sid = Some sub \<Longrightarrow> repeater sub \<noteq> Started) \<Longrightarrow> repeater_stop sid e st = st"
  by (auto simp: repeater_stop_def split: option.splits repeater_state.splits)

lemma stop_repeater:
  "subs st sid = Some sub \<Longrightarrow>
     subs (repeater_stop s e st) sid =
       Some (if s = sid \<and> repeater sub = Started then sub\<lparr>repeater := Stopped e\<rparr> else sub)"
  by (auto simp: repeater_stop_def split: option.splits repeater_state.splits)

lemma stop_unknown: "subs st sid = None \<Longrightarrow> subs (repeater_stop s e st) sid = None"
  by (auto simp: repeater_stop_def split: option.splits repeater_state.splits)

lemma fold_stop_fields:
  "timers (fold (\<lambda>stop s. repeater_stop stop None s) fs st) = timers st"
  "heartbeats (fold (\<lambda>stop s. repeater_stop stop None s) fs st) = heartbeats st"
  "stopFnSet (fold (\<lambda>stop s. repeater_stop stop None s) fs st) = stopFnSet st"
  "uncaught (fold (\<lambda>stop s. repeater_stop stop None s) fs st) = uncaught st"
  "now (fold (\<lambda>stop s. repeater_stop stop None s) fs st) = now st"
  by (induction fs arbitrary: st) (simp_all add: stop_fields)

lemma fold_stop_repeater:
  "subs st sid = Some sub \<Longrightarrow>
     subs (fold (\<lambda>stop s. repeater_stop stop None s) fs st) sid =
       Some (if sid \<in> set fs \<and> repeater sub = Started then sub\<lparr>repeater := Stopped None\<rparr> else sub)"
proof (induction fs arbitrary: st sub)
  case Nil then show ?case by simp
next
  case (Cons f fs)
  show ?case
    using Cons.IH[OF stop_repeater[OF Cons.prems, of f None]] by auto
qed

lemma fold_stop_unknown:
  "subs st sid = None \<Longrightarrow> subs (fold (\<lambda>stop s. repeater_stop stop None s) fs st) sid = None"
  by (induction fs arbitrary: st) (simp_all add: stop_unknown)

lemma fold_stop_idle:
  "(\<And>s sub. s \<in> set fs \<Longrightarrow> subs st s = Some sub \<Longrightarrow> repeater sub \<noteq> Started) \<Longrightarrow>
     fold (\<lambda>stop s. repeater_stop stop None s) fs st = st"
proof (induction fs)
  case Nil then show ?case by simp
next
  case (Cons f fs)
  have "repeater_stop f None st = st" using Cons.prems[of f] by (intro stop_idle) simp
  moreover have "fold (\<lambda>stop s. repeater_stop stop None s) fs st = st"
    using Cons.prems by (intro Cons.IH) auto
  ultimately show ?case by simp
qed

lemma fold_clear_fields:
  "timers (fold (\<lambda>interval s. clearTimeout (Some interval) s) hs st) h =
     (if h \<in> set hs then None else timers st h)"
  "subs (fold (\<lambda>interval s. clearTimeout (Some interval) s) hs st) = subs st"
  "heartbeats (fold (\<lambda>interval s. clearTimeout (Some interval) s) hs st) = heartbeats st"
  "stopFnSet (fold (\<lambda>interval s. clearTimeout (Some interval) s) hs st) = stopFnSet st"
  "microtasks (fold (\<lambda>interval s. clearTimeout (Some interval) s) hs st) = microtasks st"
  "uncaught (fold (\<lambda>interval s. clearTimeout (Some interval) s) hs st) = uncaught st"
  "now (fold (\<lambda>interval s. clearTimeout (Some interval) s) hs st) = now st"
  by (induction hs arbitrary: st) (simp_all add: clearTimeout_def)

lemma clear_idle:
  assumes "timers st h = None"
  shows "clearTimeout (Some h) st = st"
proof -
  have "(timers st)(h := None) = timers st" using assms by (simp add: fun_upd_idem)
  then show ?thesis by (simp add: clearTimeout_def)
qed

lemma fold_clear_idle:
  "(\<And>h. h \<in> set hs \<Longrightarrow> timers st h = None) \<Longrightarrow>
     fold (\<lambda>interval s. clearTimeout (Some interval) s) hs st = st"
proof (induction hs)
  case Nil then show ?case by simp
next
  case (Cons h hs)
  have "clearTimeout (Some h) st = st" using Cons.prems[of h] by (intro clear_idle) simp
  moreover have "fold (\<lambda>interval s. clearTimeout (Some interval) s) hs st = st"
    using Cons.prems by (intro Cons.IH) auto
  ultimately show ?case by simp
qed

lemma dispose_fields:
  "timers (asyncDispose st) h = (if h \<in> snd ` set (heartbeats st) then None else timers st h)"
  "heartbeats (asyncDispose st) = heartbeats st"
  "stopFnSet (asyncDispose st) = stopFnSet st"
  "uncaught (asyncDispose st) = uncaught st"
  "now (asyncDispose st) = now st"
  by (simp_all add: asyncDispose_def Let_def fold_clear_fields fold_stop_fields)

lemma dispose_repeater:
  "subs st sid = Some sub \<Longrightarrow>
     subs (asyncDispose st) sid =
       Some (if sid \<in> set (stopFnSet st) \<and> repeater sub = Started
             then sub\<lparr>repeater := Stopped None\<rparr> else sub)"
  by (simp add: asyncDispose_def Let_def fold_clear_fields fold_stop_repeater)

lemma dispose_unknown: "subs st sid = None \<Longrightarrow> subs (asyncDispose st) sid = None"
  by (simp add: asyncDispose_def Let_def fold_clear_fields fold_stop_unknown)

text \<open>A state in which disposal finds nothing to do.\<close>

lemma dispose_idle:
  assumes "\<And>s sub. s \<in> set (stopFnSet st) \<Longrightarrow> subs st s = Some sub \<Longrightarrow> repeater sub \<noteq> Started"
    and "\<And>h. h \<in> snd ` set (heartbeats st) \<Longrightarrow> timers st h = None"
  shows "asyncDispose st = st"
proof -
  have "fold (\<lambda>stop s. repeater_stop stop None s) (stopFnSet st) st = st"
    using assms(1) by (rule fold_stop_idle)
  then show ?thesis using fold_clear_idle[of "map snd (heartbeats st)" st] assms(2)
    by (simp add: asyncDispose_def Let_def)
qed

lemma dispose_no_started:
  assumes "s \<in> set (stopFnSet st)" "subs (asyncDispose st) s = Some sub"
  shows "repeater sub \<noteq> Started"
proof (cases "subs st s")
  case None then show ?thesis using dispose_unknown[OF None] assms(2) by simp
next
  case (Some x)
  show ?thesis using dispose_repeater[OF Some] assms by (auto split: if_splits)
qed

lemma dispose_twice: "asyncDispose (asyncDispose st) = asyncDispose st"
proof (rule dispose_idle)
  fix s sub
  assume "s \<in> set (stopFnSet (asyncDispose st))" "subs (asyncDispose st) s = Some sub"
  then show "repeater sub \<noteq> Started" using dispose_no_started[of s st sub] by (simp add: dispose_fields)
next
  fix h assume "h \<in> snd ` set (heartbeats (asyncDispose st))"
  then show "timers (asyncDispose st) h = None" by (simp add: dispose_fields)
qed

text \<open>The hooks change no result, add no \<open>stop\<close> function, no entry and no timer.\<close>

lemma cleanup_keeps:
  "map_option repeater (subs (cleanup s st) sid) = map_option repeater (subs st sid)"
  "set (stopFnSet (cleanup s st)) \<subseteq> set (stopFnSet st)"
  "snd ` set (heartbeats (cleanup s st)) \<subseteq> snd ` set (heartbeats st)"
  "timers st h = None \<Longrightarrow> timers (cleanup s st) h = None"
proof -
  show "map_option repeater (subs (cleanup s st) sid) = map_option repeater (subs st sid)"
    by (cases "subs st s") (auto simp: cleanup_unknown cleanup_fields(5))
  show "set (stopFnSet (cleanup s st)) \<subseteq> set (stopFnSet st)"
    by (cases "subs st s") (auto simp: cleanup_unknown cleanup_fields(4))
  show "snd ` set (heartbeats (cleanup s st)) \<subseteq> snd ` set (heartbeats st)"
    by (cases "subs st s") (auto simp: cleanup_unknown cleanup_fields(3) AList.delete_eq)
  show "timers st h = None \<Longrightarrow> timers (cleanup s st) h = None"
    by (cases "subs st s") (auto simp: cleanup_unknown cleanup_fields(2) split: option.splits)
qed

lemma fold_cleanup_keeps:
  "map_option repeater (subs (fold cleanup Q st) sid) = map_option repeater (subs st sid)"
  "set (stopFnSet (fold cleanup Q st)) \<subseteq> set (stopFnSet st)"
  "snd ` set (heartbeats (fold cleanup Q st)) \<subseteq> snd ` set (heartbeats st)"
  "timers st h = None \<Longrightarrow> timers (fold cleanup Q st) h = None"
proof (induction Q arbitrary: st)
  case Nil
  { case 1 show ?case by simp next case 2 show ?case by simp next
    case 3 show ?case by simp next case 4 then show ?case by simp }
next
  case (Cons q Q)
  { case 1 show ?case using Cons.IH(1)[of "cleanup q st"] cleanup_keeps(1)[of q st sid] by simp
  next
    case 2 show ?case using Cons.IH(2)[of "cleanup q st"] cleanup_keeps(2)[of q st] by auto
  next
    case 3 show ?case using Cons.IH(3)[of "cleanup q st"] cleanup_keeps(3)[of q st] by auto
  next
    case 4 then show ?case using Cons.IH(4)[of "cleanup q st"] cleanup_keeps(4)[of st h q] by simp }
qed

lemma drain_keeps:
  "map_option repeater (subs (drain st) sid) = map_option repeater (subs st sid)"
  "set (stopFnSet (drain st)) \<subseteq> set (stopFnSet st)"
  "snd ` set (heartbeats (drain st)) \<subseteq> snd ` set (heartbeats st)"
  "timers st h = None \<Longrightarrow> timers (drain st) h = None"
  "microtasks (drain st) = []"
  using fold_cleanup_keeps[where Q = "microtasks st" and st = "st\<lparr>microtasks := []\<rparr>"]
  by (simp_all add: drain_def)

lemma dispose_step_twice: "step (step st Dispose) Dispose = step st Dispose"
proof -
  let ?d = "asyncDispose st"
  let ?s = "drain ?d"
  have "asyncDispose ?s = ?s"
  proof (rule dispose_idle)
    fix s sub assume a: "s \<in> set (stopFnSet ?s)" "subs ?s s = Some sub"
    have m: "s \<in> set (stopFnSet st)" using a(1) drain_keeps(2)[of ?d] by (auto simp: dispose_fields)
    obtain x where x: "subs ?d s = Some x" "repeater x = repeater sub"
      using drain_keeps(1)[of ?d s] a(2) by (cases "subs ?d s") auto
    show "repeater sub \<noteq> Started" using dispose_no_started[OF m x(1)] x(2) by simp
  next
    fix h assume "h \<in> snd ` set (heartbeats ?s)"
    then have "h \<in> snd ` set (heartbeats st)" using drain_keeps(3)[of ?d] by (auto simp: dispose_fields)
    then have "timers ?d h = None" by (simp add: dispose_fields)
    then show "timers ?s h = None" by (rule drain_keeps(4))
  qed
  then show ?thesis by (simp add: step_def drain_quiet drain_keeps(5))
qed

section \<open>The wiring of a Repeater is never undone\<close>

lemma wired_upd [simp]:
  "wired sid (st\<lparr>timers := b\<rparr>) = wired sid st"
  "wired sid (st\<lparr>next_timer := c\<rparr>) = wired sid st"
  "wired sid (st\<lparr>heartbeats := d\<rparr>) = wired sid st"
  "wired sid (st\<lparr>stopFnSet := e\<rparr>) = wired sid st"
  "wired sid (st\<lparr>pubsub := f\<rparr>) = wired sid st"
  "wired sid (st\<lparr>next_subId := g\<rparr>) = wired sid st"
  "wired sid (st\<lparr>now := h\<rparr>) = wired sid st"
  "wired sid (st\<lparr>microtasks := i\<rparr>) = wired sid st"
  "wired sid (st\<lparr>uncaught := j\<rparr>) = wired sid st"
  by (simp_all add: wired_def)

lemma wired_cong: "subs st' sid = subs st sid \<Longrightarrow> wired sid st' = wired sid st"
  by (simp add: wired_def)

lemma wired_clearTimeout: "wired sid st \<Longrightarrow> wired sid (clearTimeout h st)"
  by (cases h) (simp_all add: clearTimeout_def)

lemma wired_stop: "wired sid st \<Longrightarrow> wired sid (repeater_stop s e st)"
  by (auto simp: wired_def repeater_stop_def split: option.splits repeater_state.splits)

lemma wired_push: "wired sid st \<Longrightarrow> wired sid (repeater_push s v st)"
  by (auto simp: wired_def repeater_push_def split: option.splits repeater_state.splits)

lemma wired_cleanup: "wired sid st \<Longrightarrow> wired sid (cleanup s st)"
proof (cases "subs st s")
  case None
  assume "wired sid st" then show ?thesis using None by (simp add: cleanup_unknown)
next
  case (Some x)
  assume a: "wired sid st"
  have f: "subs (cleanup s st) = (subs st)(s \<mapsto> x\<lparr>cleanups := Suc (cleanups x)\<rparr>)"
    using Some by (rule cleanup_fields(5))
  show ?thesis
  proof (cases "s = sid")
    case True
    then have "stopSubscription x = RepeaterStop" using a Some by (auto simp: wired_def)
    then show ?thesis unfolding wired_def f using True by simp
  next
    case False
    then show ?thesis using a unfolding wired_def f by simp
  qed
qed

lemma wired_fold_cleanup: "wired sid st \<Longrightarrow> wired sid (fold cleanup Q st)"
  by (induction Q arbitrary: st) (simp_all add: wired_cleanup)

lemma wired_drain: "wired sid st \<Longrightarrow> wired sid (drain st)"
  by (simp add: drain_def wired_fold_cleanup)

lemma wired_call_stop:
  "wired sid st \<Longrightarrow> call_stopSubscription s e st = Inr st' \<Longrightarrow> wired sid st'"
  by (auto simp: call_stopSubscription_def wired_stop split: option.splits stop_ref.splits)

lemma wired_call_push:
  "wired sid st \<Longrightarrow> call_pushFn s v st = Inr st' \<Longrightarrow> wired sid st'"
  by (auto simp: call_pushFn_def wired_push split: option.splits push_ref.splits)

lemma wired_stop_or_uncaught:
  "wired sid st \<Longrightarrow> wired sid (or_uncaught st (call_stopSubscription s e st))"
  by (cases "call_stopSubscription s e st") (simp_all add: or_uncaught_def wired_call_stop)

lemma wired_on_catch: "wired sid st \<Longrightarrow> wired sid (on_catch s e st)"
  by (simp add: on_catch_def wired_stop_or_uncaught)

lemma wired_on_resJson:
  assumes "wired sid st" "on_resJson s rj st = Inr st'"
  shows "wired sid st'"
proof (cases "errors rj")
  case (Some es)
  then show ?thesis using assms
    by (auto simp: on_resJson_def split: if_splits dest: wired_call_stop)
next
  case None
  show ?thesis
  proof (cases "data rj")
    case None
    then show ?thesis using assms \<open>errors rj = None\<close> by (simp add: on_resJson_def)
  next
    case (Some d)
    then obtain st1 where "call_pushFn s d st = Inr st1" "call_stopSubscription s None st1 = Inr st'"
      using assms(2) \<open>errors rj = None\<close> by (auto simp: on_resJson_def split: sum.splits)
    then show ?thesis
      using wired_call_stop[OF wired_call_push[OF assms(1)], of s d st1 s None st'] by simp
  qed
qed

lemma wired_fetch_settled:
  assumes a: "wired sid st"
  shows "wired sid (fetch_settled s x st)"
proof (cases x)
  case (FetchRejected e)
  then show ?thesis using a by (simp add: fetch_settled_def wired_on_catch)
next
  case (FetchResolved res)
  define r1 where "r1 = (if \<not> ok res then call_stopSubscription s (Some (http_error (status res))) st
                 else Inr st)"
  show ?thesis
  proof (cases r1)
    case (Inl e)
    then show ?thesis using FetchResolved a by (simp add: fetch_settled_def r1_def wired_on_catch)
  next
    case (Inr st1)
    then have c1: "wired sid st1"
      using a by (auto simp: r1_def split: if_splits dest: wired_call_stop)
    show ?thesis
    proof (cases "json res")
      case (JsonRejected e)
      then show ?thesis using FetchResolved Inr c1
        by (simp add: fetch_settled_def r1_def wired_on_catch)
    next
      case (Json rj)
      show ?thesis
      proof (cases "on_resJson s rj st1")
        case (Inl e)
        then show ?thesis using FetchResolved Inr Json c1
          by (simp add: fetch_settled_def r1_def wired_on_catch)
      next
        case (Inr st2)
        then show ?thesis using FetchResolved \<open>r1 = Inr st1\<close> Json wired_on_resJson[OF c1 Inr]
          by (simp add: fetch_settled_def r1_def)
      qed
    qed
  qed
qed

lemma wired_rearm: "wired sid st \<Longrightarrow> wired sid (rearm s i st)"
  by (simp add: wired_def rearm_fields)

lemma wired_dispatch: "wired sid st \<Longrightarrow> wired sid (dispatch s a st)"
  by (simp add: dispatch_def wired_push wired_stop_or_uncaught
        split: callback_action.splits option.splits)

lemma wired_handler: "wired sid st \<Longrightarrow> wired sid (handler s msg st)"
  by (simp add: handler_def wired_dispatch wired_rearm split: option.splits)

lemma wired_publish: "wired sid st \<Longrightarrow> wired sid (publish s msg st)"
proof -
  have "wired sid st \<Longrightarrow> wired sid (fold (\<lambda>l. handler s msg) ls st)"
    for ls :: "(nat \<times> sub_id) list" and st
    by (induction ls arbitrary: st) (simp_all add: wired_handler)
  then show "wired sid st \<Longrightarrow> wired sid (publish s msg st)"
    by (simp add: publish_def)
qed

lemma wired_fire: "wired sid st \<Longrightarrow> wired sid (fire h st)"
proof (cases "timers st h")
  case None
  assume "wired sid st" then show ?thesis using None by (simp add: fire_def)
next
  case (Some x)
  assume a: "wired sid st"
  obtain owner deadline where "x = (owner, deadline)" by (cases x)
  then show ?thesis using Some a
    wired_stop_or_uncaught[of sid "st\<lparr>timers := (timers st)(h := None)\<rparr>" owner]
    by (simp add: fire_def Let_def)
qed

lemma wired_elapse: "wired sid st \<Longrightarrow> wired sid (elapse dt st)"
proof -
  have "wired sid st \<Longrightarrow>
        wired sid (fold (\<lambda>h s. if due t h s then drain (fire h s) else s) hs st)" for t hs st
    by (induction hs arbitrary: st) (simp_all add: wired_drain wired_fire)
  then show "wired sid st \<Longrightarrow> wired sid (elapse dt st)"
    by (simp add: elapse_def)
qed

lemma wired_dispose: "wired sid st \<Longrightarrow> wired sid (asyncDispose st)"
proof -
  have a: "wired sid st \<Longrightarrow> wired sid (fold (\<lambda>stop s. repeater_stop stop None s) fs st)"
    for fs st by (induction fs arbitrary: st) (simp_all add: wired_stop)
  have b: "wired sid st \<Longrightarrow>
           wired sid (fold (\<lambda>interval s. clearTimeout (Some interval) s) hs st)"
    for hs st by (induction hs arbitrary: st) (simp_all add: wired_clearTimeout)
  show "wired sid st \<Longrightarrow> wired sid (asyncDispose st)"
    by (simp add: asyncDispose_def Let_def a b)
qed

lemma wired_next: "wired sid st \<Longrightarrow> wired sid (repeater_next s st)"
  by (auto simp: wired_def repeater_next_def repeater_execute_def split: option.splits)

lemma wired_return: "wired sid st \<Longrightarrow> wired sid (repeater_return s st)"
  by (auto simp: wired_def repeater_return_def repeater_stop_def
           split: option.splits repeater_state.splits)

lemma wired_create:
  assumes "wired sid st" "httpCallbackExecutor s st = Inr st'" "s \<noteq> sid"
  shows "wired sid st'"
  using assms(1) wired_cong[OF create_subs_other[OF assms(2,3)]] by simp

lemma wired_step:
  assumes a: "wired sid st" and f: "e \<noteq> Subscribe sid"
  shows "wired sid (step st e)"
proof (cases e)
  case (Subscribe s)
  then show ?thesis using a f
    by (auto simp: step_def split: sum.splits intro: wired_create)
next
  case (Pull s) then show ?thesis using a by (simp add: step_def wired_drain wired_next)
next
  case (Cancel s) then show ?thesis using a by (simp add: step_def wired_drain wired_return)
next
  case (Settle s x)
  show ?thesis
  proof (cases "subs st s")
    case None then show ?thesis using a Settle by (simp add: step_def)
  next
    case (Some sub)
    have "wired sid (st\<lparr>subs := (subs st)(s \<mapsto> sub\<lparr>fetch_pending := False\<rparr>)\<rparr>)"
      using a Some by (auto simp: wired_def)
    then show ?thesis using a Settle Some
      by (simp add: step_def wired_drain wired_fetch_settled)
  qed
next
  case (Deliver s msg) then show ?thesis using a by (simp add: step_def wired_drain wired_publish)
next
  case (Elapse dt) then show ?thesis using a by (simp add: step_def wired_elapse)
next
  case Dispose then show ?thesis using a by (simp add: step_def wired_drain wired_dispose)
qed

lemma wired_run:
  "wired sid st \<Longrightarrow> admissible st es \<Longrightarrow> wired sid (run st es)"
proof (induction es arbitrary: st)
  case Nil then show ?case by (simp add: run_def)
next
  case (Cons e es)
  have "e \<noteq> Subscribe sid" using Cons.prems by (auto simp: wired_def)
  then have "wired sid (step st e)" using Cons.prems(1) by (intro wired_step)
  then show ?case using Cons.IH[of "step st e"] Cons.prems(2) by (simp add: run_def)
qed

section \<open>Exit paths\<close>

lemma registered_started:
  assumes i: "inv st" and m: "sid \<in> set (stopFnSet st)"
  shows "\<exists>sub. subs st sid = Some sub \<and> repeater sub = Started"
proof -
  have w: "winv [] st" using i by (simp add: inv_def)
  obtain sub where s: "subs st sid = Some sub" using knownD(1)[OF winvD(5)[OF w] m] by auto
  have "repeater sub = Started"
    using sub_okD[OF w s] m by (cases "stopSubscription sub") (auto simp: sub_ok_def)
  then show ?thesis using s by simp
qed

lemma cleanups_count:
  assumes i: "inv st" and s: "subs st sid = Some sub"
  shows "cleanups sub = (if stopSubscription sub = RepeaterStop \<and> repeater sub \<noteq> Started then 1 else 0)"
proof -
  have w: "winv [] st" using i by (simp add: inv_def)
  show ?thesis using sub_okD[OF w s] by (cases "stopSubscription sub") (auto simp: sub_ok_def)
qed

lemma finalized_of_ended:
  assumes i: "inv st" and s: "subs st sid = Some sub"
    and w: "stopSubscription sub = RepeaterStop" and r: "repeater sub \<noteq> Started"
  shows "finalized sid st"
proof -
  note e = ended_clean[OF i s w r]
  have wi: "winv [] st" using i by (simp add: inv_def)
  have "repeater sub \<noteq> Initial" using sub_okD[OF wi s] w by (simp add: sub_ok_def)
  moreover have "map_option fst (timers st h) \<noteq> Some sid" for h
  proof (cases "timers st h")
    case None then show ?thesis by simp
  next
    case (Some x)
    obtain a b where "x = (a, b)" by (cases x)
    then show ?thesis using Some e(5)[of h b] by auto
  qed
  ultimately show ?thesis using s r e(1,2,3,4) by (auto simp: finalized_def)
qed

lemma finalizedI:
  assumes "inv st" "wired sid st" "settled sid r p st"
  shows "finalized sid st"
proof -
  obtain sub where "subs st sid = Some sub" "stopSubscription sub = RepeaterStop"
    "repeater sub = Stopped r"
    using assms(2,3) by (auto simp: wired_def settled_def)
  then show ?thesis using finalized_of_ended[OF assms(1), of sid sub] by simp
qed

lemma wiredI: "inv st \<Longrightarrow> subs st sid = Some sub \<Longrightarrow> repeater sub = Started \<Longrightarrow> wired sid st"
  using wired_of_started(1)[of st sid sub] by (simp add: wired_def)

lemma uncaught_drain [simp]: "uncaught (drain st) = uncaught st"
proof -
  have "uncaught (cleanup s x) = uncaught x" for s x
    by (cases "subs x s") (simp_all add: cleanup_unknown cleanup_fields(10))
  then have "uncaught (fold cleanup Q x) = uncaught x" for Q x
    by (induction Q arbitrary: x) simp_all
  then show ?thesis by (simp add: drain_def)
qed

lemma cancel_result:
  assumes i: "inv st" and s: "subs st sid = Some sub" and r: "repeater sub = Started"
  shows "settled sid None (pushed sub) (step st (Cancel sid))"
proof -
  have m: "microtasks st = []" using i by (simp add: inv_def)
  have "step st (Cancel sid) = drain (repeater_stop sid None st)"
    using s r by (simp add: step_def repeater_return_def)
  then show ?thesis using stop_drain(1)[OF s r m, of None] by (simp add: settled_def)
qed

lemma cancel_idle:
  assumes "inv st" "subs st sid = Some sub" "repeater sub = Stopped r"
  shows "step st (Cancel sid) = st"
  using assms by (simp add: step_def repeater_return_def drain_quiet inv_def)

lemma dispose_result:
  assumes i: "inv st" and s: "subs st sid = Some sub" and r: "repeater sub = Started"
  shows "settled sid None (pushed sub) (step st Dispose)"
proof -
  have w: "winv [] st" using i by (simp add: inv_def)
  have m: "sid \<in> set (stopFnSet st)" using started_wired[OF sub_okD[OF w s] r] by simp
  have "settled sid None (pushed sub) (asyncDispose st)"
    using dispose_repeater[OF s] m r by (simp add: settled_def)
  then show ?thesis by (simp add: step_def settled_drain)
qed

lemma settle_result:
  assumes i: "inv st" and s: "subs st sid = Some sub" and r: "repeater sub = Started"
    and f: "fetch_pending sub" and e: "ends_sequence x"
  shows "\<exists>R p. settled sid R p (step st (Settle sid x))"
proof -
  let ?sub = "sub\<lparr>fetch_pending := False\<rparr>"
  let ?s1 = "st\<lparr>subs := (subs st)(sid \<mapsto> ?sub)\<rparr>"
  note w = wired_of_started[OF i s r]
  have s1: "subs ?s1 sid = Some ?sub" "repeater ?sub = Started" "microtasks ?s1 = []"
    using r i by (simp_all add: inv_def)
  have st: "step st (Settle sid x) = drain (fetch_settled sid x ?s1)"
    using s f by (simp add: step_def)
  have c: "call_stopSubscription sid y ?s1 = Inr (repeater_stop sid y ?s1)" for y
    using call_stop_wired[OF s1(1), of y] w(1) by simp
  have k: "on_catch sid y ?s1 = repeater_stop sid (Some y) ?s1" for y
    by (simp add: on_catch_def c or_uncaught_def)
  have stopped: "settled sid y (pushed sub) (drain (repeater_stop sid y ?s1))" for y
    using stop_drain(1)[OF s1, of y] by (simp add: settled_def)
  show ?thesis
  proof (cases x)
    case (FetchRejected y)
    then have "fetch_settled sid x ?s1 = repeater_stop sid (Some y) ?s1"
      by (simp add: fetch_settled_def k)
    then show ?thesis using stopped[of "Some y"] st by auto
  next
    case (FetchResolved res)
    show ?thesis
    proof (cases "ok res")
      case False
      let ?s2 = "repeater_stop sid (Some (http_error (status res))) ?s1"
      have s2: "settled sid (Some (http_error (status res))) (pushed sub) ?s2"
        using stop_started[OF s1(1,2)] by (simp add: settled_def)
      have "settled sid (Some (http_error (status res))) (pushed sub) (fetch_settled sid x ?s1)"
      proof (cases "json res")
        case (JsonRejected y)
        then show ?thesis using FetchResolved False s2
          by (simp add: fetch_settled_def c settled_on_catch)
      next
        case (Json rj)
        show ?thesis
        proof (cases "on_resJson sid rj ?s2")
          case (Inl y)
          then show ?thesis using FetchResolved False Json s2
            by (simp add: fetch_settled_def c settled_on_catch)
        next
          case (Inr s3)
          then show ?thesis using FetchResolved False Json settled_on_resJson[OF s2 Inr]
            by (simp add: fetch_settled_def c)
        qed
      qed
      then have "settled sid (Some (http_error (status res))) (pushed sub) (step st (Settle sid x))"
        unfolding st by (rule settled_drain)
      then show ?thesis by blast
    next
      case True
      show ?thesis
      proof (cases "json res")
        case (JsonRejected y)
        then have "fetch_settled sid x ?s1 = repeater_stop sid (Some y) ?s1"
          using FetchResolved True by (simp add: fetch_settled_def k)
        then show ?thesis using stopped[of "Some y"] st by auto
      next
        case (Json rj)
        show ?thesis
        proof (cases "errors rj")
          case (Some es)
          show ?thesis
            using settled_iff[OF response_result(1)[OF i s r f True Json Some]] FetchResolved
            by auto
        next
          case None
          then obtain d where d: "data rj = Some d"
            using e FetchResolved True Json by (auto simp: ends_sequence_def)
          show ?thesis
            using settled_iff[OF response_result(2)[OF i s r f True Json None d, THEN conjunct1]]
              FetchResolved
            by auto
        qed
      qed
    qed
  qed
qed

section \<open>The claims\<close>

text \<open>
  C1. A callback message whose verifier differs from the verifier of the transport is
  dropped: the listener returns the state it was given (subscription, timers, registry and
  the list of thrown errors included), and so does the delivery as a whole.
\<close>

theorem mismatched_verifier_discarded:
  "msg_verifier msg \<noteq> verifier st \<Longrightarrow>
     handler sid msg st = st \<and> publish sid msg st = st \<and>
     (microtasks st = [] \<longrightarrow> step st (Deliver sid msg) = st)"
proof -
  assume v: "msg_verifier msg \<noteq> verifier st"
  then have h: "handler sid msg st = st" by (simp add: handler_def)
  have "fold (\<lambda>l. handler sid msg) ls st = st" for ls :: "(nat \<times> sub_id) list"
    by (induction ls) (simp_all add: h)
  then have p: "publish sid msg st = st" by (simp add: publish_def)
  show ?thesis using h p by (simp add: step_def drain_quiet)
qed

lemma demo_started_fields:
  "verifier (run demo [Subscribe ''a'', Pull ''a'']) = ''v''"
  "microtasks (run demo [Subscribe ''a'', Pull ''a'']) = []"
  "pubsub (run demo [Subscribe ''a'', Pull ''a'']) = [(0, ''a'')]"
  by (simp_all add: model_defs demo_defs)

theorem mismatched_verifier_discarded_witness:
  "msg_verifier forged \<noteq> verifier (run demo [Subscribe ''a'', Pull ''a'']) \<and>
   microtasks (run demo [Subscribe ''a'', Pull ''a'']) = [] \<and>
   pubsub (run demo [Subscribe ''a'', Pull ''a'']) = [(0, ''a'')] \<and>
   step (run demo [Subscribe ''a'', Pull ''a'']) (Deliver ''a'' forged) =
     run demo [Subscribe ''a'', Pull ''a'']"
  using mismatched_verifier_discarded [of forged "run demo [Subscribe ''a'', Pull ''a'']" "''a''"]
  by (simp add: demo_started_fields forged_def)

text \<open>
  C10. Without a bus, \<open>getSubgraphExecutor\<close> throws: no executor is returned, so no
  subscription can be attempted. An executor is returned only when a bus was given, and
  it starts with no subscription, timer or registry entry.
\<close>

theorem getSubgraphExecutor_requires_pubsub:
  "(\<exists>e. getSubgraphExecutor JSON_parse url uuid entry None = Inl e) \<and>
   (getSubgraphExecutor JSON_parse url uuid entry bus = Inr st \<longrightarrow> bus \<noteq> None) \<and>
   (getSubgraphExecutor JSON_parse url uuid entry bus = Inr st \<longrightarrow>
      subs st = Map.empty \<and> heartbeats st = [] \<and> stopFnSet st = [] \<and> timers st = Map.empty)"
  by (auto simp: getSubgraphExecutor_def split: headers_config.splits sum.splits option.splits)

theorem getSubgraphExecutor_requires_pubsub_witness:
  "getSubgraphExecutor demo_parse demo_url ''v'' demo_entry (Some ([], 0)) = Inr demo \<and>
   Some ([], 0 :: nat) \<noteq> (None :: ((nat \<times> sub_id) list \<times> nat) option) \<and>
   subs demo = Map.empty \<and>
   (\<exists>e. getSubgraphExecutor demo_parse demo_url ''v'' demo_entry None = Inl e)"
  using getSubgraphExecutor_requires_pubsub
    [of demo_parse demo_url "''v''" demo_entry "Some ([], 0)" demo]
  by (simp add: demo_init)

text \<open>
  C9. When no \<open>heartbeat_interval\<close> is configured, the interval is 50000 ms, not 5000: it
  is what every subscription of the transport stores and sends to the subgraph, the delay
  of the timer armed at creation, and the delay of the timer armed by every accepted
  callback message.
\<close>

theorem default_heartbeat_interval:
  assumes "getSubgraphExecutor JSON_parse url uuid entry (Some ([], n)) = Inr st0"
    and "admissible st0 es"
    and "options entry = Some opts" and "heartbeat_interval opts = None"
  shows "default_heartbeat (heartbeat_interval opts) = 50000 \<and>
         default_heartbeat (heartbeat_interval opts) \<noteq> 5000 \<and>
         (\<forall>sid sub. subs (run st0 es) sid = Some sub \<longrightarrow>
            heartbeatIntervalMs sub = 50000 \<and> ext_heartbeatIntervalMs (fetchBody sub) = 50000) \<and>
         (\<forall>sid st'. httpCallbackExecutor sid (run st0 es) = Inr st' \<longrightarrow>
            map_of (heartbeats st') sid = Some (next_timer (run st0 es)) \<and>
            timers st' (next_timer (run st0 es)) = Some (sid, now (run st0 es) + 50000)) \<and>
         (\<forall>sid sub msg. subs (run st0 es) sid = Some sub \<longrightarrow>
            msg_verifier msg = verifier (run st0 es) \<longrightarrow>
            timers (handler sid msg (run st0 es)) (next_timer (run st0 es)) =
              Some (sid, now (run st0 es) + 50000))"
proof -
  let ?st = "run st0 es"
  have i: "inv ?st" using assms(1,2) by (rule reach_inv)
  have o: "options (transportEntry ?st) = Some opts"
    using reach_setup(2)[OF assms(1), of es] assms(3) by simp
  have d: "default_heartbeat (heartbeat_interval opts) = 50000"
    using assms(4) by (simp add: default_heartbeat_def)
  have a: "heartbeatIntervalMs sub = 50000 \<and> ext_heartbeatIntervalMs (fetchBody sub) = 50000"
    if "subs ?st sid = Some sub" for sid sub
    using config_okD(1,2)[OF i that o] d by simp
  have b: "map_of (heartbeats st') sid = Some (next_timer ?st) \<and>
           timers st' (next_timer ?st) = Some (sid, now ?st + 50000)"
    if "httpCallbackExecutor sid ?st = Inr st'" for sid st'
    using create_fields(1,3)[OF that] o d by (auto simp: AList.update_conv')
  have c: "timers (handler sid msg ?st) (next_timer ?st) = Some (sid, now ?st + 50000)"
    if "subs ?st sid = Some sub" "msg_verifier msg = verifier ?st" for sid sub msg
    using a[OF that(1)] by (simp add: handler_accepted[OF that] dispatch_fields rearm_fields)
  show ?thesis using d a b c by (intro conjI allI impI) simp_all
qed

lemma demo_admissible: "admissible demo [Subscribe ''a'', Pull ''a'']"
  by (simp add: model_defs demo_defs)

theorem default_heartbeat_interval_witness:
  "getSubgraphExecutor demo_parse demo_url ''v'' demo_entry (Some ([], 0)) = Inr demo \<and>
   admissible demo [Subscribe ''a'', Pull ''a''] \<and>
   options demo_entry = Some \<lparr>public_url = None, path = None, heartbeat_interval = None\<rparr> \<and>
   heartbeat_interval \<lparr>public_url = None, path = None, heartbeat_interval = None\<rparr> = None \<and>
   (\<exists>sub. subs (run demo [Subscribe ''a'', Pull ''a'']) ''a'' = Some sub \<and>
      heartbeatIntervalMs sub = 50000 \<and> ext_heartbeatIntervalMs (fetchBody sub) = 50000) \<and>
   (\<exists>st'. httpCallbackExecutor ''b'' (run demo [Subscribe ''a'', Pull ''a'']) = Inr st' \<and>
      timers st' 1 = Some (''b'', 50000)) \<and>
   timers (handler ''a'' \<lparr>action = Check, msg_id = ''a'', msg_verifier = ''v''\<rparr>
             (run demo [Subscribe ''a'', Pull ''a''])) 1 = Some (''a'', 50000)"
proof -
  let ?st = "run demo [Subscribe ''a'', Pull ''a'']"
  have o: "options demo_entry = Some \<lparr>public_url = None, path = None, heartbeat_interval = None\<rparr>"
    by (simp add: demo_entry_def)
  note t = default_heartbeat_interval[OF demo_init demo_admissible o, simplified]
  obtain sub where s: "subs ?st ''a'' = Some sub" by (simp add: model_defs demo_defs)
  obtain st' where c: "httpCallbackExecutor ''b'' ?st = Inr st'"
    by (simp add: model_defs demo_defs)
  have n: "next_timer ?st = 1" "now ?st = 0" "verifier ?st = ''v''"
    by (simp_all add: model_defs demo_defs)
  show ?thesis using t s c n demo_init demo_admissible o by fastforce
qed

text \<open>
  C5, as the code has it. An accepted message re-arms the heartbeat timer of the
  subscription whose listener received it, that is the subscription of the topic; the
  \<open>id\<close> field of the message is never read. The old timer is cleared and a new one is
  started before the action is dispatched, whatever the action; the timers and entries of
  the other subscriptions stay as they are; a \<open>check\<close> does nothing else.
\<close>

theorem accepted_message_rearms_receiver:
  assumes "getSubgraphExecutor JSON_parse url uuid entry (Some ([], n)) = Inr st0"
    and "admissible st0 es"
    and "subs (run st0 es) sid = Some sub" and "repeater sub = Started"
    and "msg_verifier msg = verifier (run st0 es)"
  shows "publish sid msg (run st0 es) = handler sid msg (run st0 es) \<and>
         handler sid msg (run st0 es) =
           dispatch sid (action msg) (rearm sid (heartbeatIntervalMs sub) (run st0 es)) \<and>
         (\<forall>h. map_of (heartbeats (run st0 es)) sid = Some h \<longrightarrow>
            timers (rearm sid (heartbeatIntervalMs sub) (run st0 es)) h = None) \<and>
         map_of (heartbeats (rearm sid (heartbeatIntervalMs sub) (run st0 es))) sid =
           Some (next_timer (run st0 es)) \<and>
         timers (rearm sid (heartbeatIntervalMs sub) (run st0 es)) (next_timer (run st0 es)) =
           Some (sid, now (run st0 es) + heartbeatIntervalMs sub) \<and>
         (\<forall>h d. timers (rearm sid (heartbeatIntervalMs sub) (run st0 es)) h = Some (sid, d) \<longrightarrow>
            h = next_timer (run st0 es)) \<and>
         (\<forall>s. s \<noteq> sid \<longrightarrow>
            map_of (heartbeats (rearm sid (heartbeatIntervalMs sub) (run st0 es))) s =
              map_of (heartbeats (run st0 es)) s \<and>
            (\<forall>h d. timers (run st0 es) h = Some (s, d) \<longrightarrow>
               timers (rearm sid (heartbeatIntervalMs sub) (run st0 es)) h = Some (s, d))) \<and>
         (action msg = Check \<longrightarrow>
            step (run st0 es) (Deliver sid msg) =
              rearm sid (heartbeatIntervalMs sub) (run st0 es))"
proof -
  let ?st = "run st0 es" and ?i = "heartbeatIntervalMs sub"
  have i: "inv ?st" using assms(1,2) by (rule reach_inv)
  note t = inv_timers_ok[OF i]
  have p: "publish sid msg ?st = handler sid msg ?st"
    using i assms(3,4) by (rule publish_single)
  have h: "handler sid msg ?st = dispatch sid (action msg) (rearm sid ?i ?st)"
    using assms(3,5) by (rule handler_accepted)
  have c: "timers (rearm sid ?i ?st) h = None" if "map_of (heartbeats ?st) sid = Some h" for h
    using that t by (rule rearm_clears_old)
  have a: "map_of (heartbeats (rearm sid ?i ?st)) sid = Some (next_timer ?st)"
    "timers (rearm sid ?i ?st) (next_timer ?st) = Some (sid, now ?st + ?i)"
    by (simp_all add: rearm_fields AList.update_conv')
  have o: "h = next_timer ?st" if "timers (rearm sid ?i ?st) h = Some (sid, d)" for h d
    using rearm_own[OF t that] by simp
  have f: "map_of (heartbeats (rearm sid ?i ?st)) s = map_of (heartbeats ?st) s" if "s \<noteq> sid" for s
    using that by (simp add: rearm_fields AList.update_conv')
  have g: "timers (rearm sid ?i ?st) h = Some (s, d)"
    if "s \<noteq> sid" "timers ?st h = Some (s, d)" for s h d
    using t that by (rule rearm_others)
  have k: "step ?st (Deliver sid msg) = rearm sid ?i ?st" if "action msg = Check"
  proof -
    have "publish sid msg ?st = rearm sid ?i ?st" using p h that by (simp add: dispatch_def)
    moreover have "microtasks (rearm sid ?i ?st) = []" using i by (simp add: rearm_fields inv_def)
    ultimately show ?thesis by (simp add: step_def drain_quiet)
  qed
  show ?thesis using p h c a o f g k by (intro conjI allI impI) blast+
qed

lemma two_subs_fields:
  "subs two_subs ''a'' = Some \<lparr>heartbeatIntervalMs = 50000,
      fetchBody = \<lparr>callbackUrl = ''http://localhost:4000/callback/a'', ext_subscriptionId = ''a'',
                   ext_verifier = ''v'', ext_heartbeatIntervalMs = 50000\<rparr>,
      stopSubscription = RepeaterStop, pushFn = RepeaterPush, subId = Some 0,
      repeater = Started, pushed = [], fetch_pending = True, cleanups = 0\<rparr>"
  "verifier two_subs = ''v''" "next_timer two_subs = 2" "now two_subs = 10"
  "heartbeats two_subs = [(''a'', 0), (''b'', 1)]"
  "timers two_subs 0 = Some (''a'', 50000)" "timers two_subs 1 = Some (''b'', 50000)"
  "admissible demo [Subscribe ''a'', Subscribe ''b'', Pull ''a'', Pull ''b'', Elapse 10]"
  by (simp_all add: two_subs_def model_defs demo_defs)

theorem accepted_message_rearms_receiver_witness:
  "getSubgraphExecutor demo_parse demo_url ''v'' demo_entry (Some ([], 0)) = Inr demo \<and>
   admissible demo [Subscribe ''a'', Subscribe ''b'', Pull ''a'', Pull ''b'', Elapse 10] \<and>
   (\<exists>sub. subs two_subs ''a'' = Some sub \<and> repeater sub = Started \<and> heartbeatIntervalMs sub = 50000) \<and>
   msg_verifier foreign_id = verifier two_subs \<and> action foreign_id = Check \<and>
   map_of (heartbeats two_subs) ''a'' = Some 0 \<and> ''b'' \<noteq> ''a'' \<and>
   timers two_subs 1 = Some (''b'', 50000) \<and>
   timers (rearm ''a'' 50000 two_subs) 0 = None \<and>
   timers (rearm ''a'' 50000 two_subs) 2 = Some (''a'', 50010) \<and>
   timers (rearm ''a'' 50000 two_subs) 1 = Some (''b'', 50000) \<and>
   step two_subs (Deliver ''a'' foreign_id) = rearm ''a'' 50000 two_subs"
proof -
  have v: "msg_verifier foreign_id = verifier two_subs" "action foreign_id = Check"
    by (simp_all add: two_subs_fields foreign_id_def)
  note t = accepted_message_rearms_receiver
    [OF demo_init two_subs_fields(8), folded two_subs_def, OF two_subs_fields(1) _ v(1), simplified]
  from t have a: "\<forall>h. map_of (heartbeats two_subs) ''a'' = Some h \<longrightarrow>
      timers (rearm ''a'' 50000 two_subs) h = None" by blast
  from t have b: "timers (rearm ''a'' 50000 two_subs) (next_timer two_subs) =
      Some (''a'', now two_subs + 50000)" by blast
  from t have c: "\<forall>s. s \<noteq> ''a'' \<longrightarrow>
      map_of (heartbeats (rearm ''a'' 50000 two_subs)) s = map_of (heartbeats two_subs) s \<and>
      (\<forall>h d. timers two_subs h = Some (s, d) \<longrightarrow>
         timers (rearm ''a'' 50000 two_subs) h = Some (s, d))" by blast
  from t have d: "action foreign_id = Check \<longrightarrow>
      step two_subs (Deliver ''a'' foreign_id) = rearm ''a'' 50000 two_subs" by blast
  have c': "timers (rearm ''a'' 50000 two_subs) 1 = Some (''b'', 50000)"
    using c[rule_format, of "''b''"] two_subs_fields(7) by simp
  show ?thesis
    using a b c' d v demo_init two_subs_fields by simp
qed

text \<open>
  C5, as stated, fails: a message that arrives on the topic of subscription \<open>a\<close> and names
  subscription \<open>b\<close> in its \<open>id\<close> field passes the verifier check, and the timer of \<open>b\<close> is
  not re-armed: it keeps its handle and its deadline, while the timer of \<open>a\<close> is replaced.
\<close>

theorem message_id_not_rearmed:
  "msg_verifier foreign_id = verifier two_subs \<and> msg_id foreign_id = ''b'' \<and>
   map_of (heartbeats two_subs) ''b'' = Some 1 \<and> timers two_subs 1 = Some (''b'', 50000) \<and>
   map_of (heartbeats (step two_subs (Deliver ''a'' foreign_id))) ''b'' = Some 1 \<and>
   timers (step two_subs (Deliver ''a'' foreign_id)) 1 = Some (''b'', 50000) \<and>
   map_of (heartbeats (step two_subs (Deliver ''a'' foreign_id))) ''a'' = Some 2 \<and>
   timers (step two_subs (Deliver ''a'' foreign_id)) 2 = Some (''a'', 50010) \<and>
   timers (step two_subs (Deliver ''a'' foreign_id)) 0 = None"
  by (simp add: two_subs_def foreign_id_def model_defs demo_defs)

text \<open>
  C7. In every reachable state a subscription id owns at most one pending heartbeat
  timer. Arming (lines 192-201) clears the timer registered for the id before it starts
  the new one, so that afterwards the new timer is the only one of the id. Clearing
  (lines 230-231) is idempotent, and clearing an id with no entry, or a handle that is
  undefined, changes nothing and raises nothing.
\<close>

theorem one_live_timer_per_subscription:
  assumes "getSubgraphExecutor JSON_parse url uuid entry (Some ([], n)) = Inr st0"
    and "admissible st0 es"
  shows "(\<forall>h h' d d'. timers (run st0 es) h = Some (sid, d) \<longrightarrow>
            timers (run st0 es) h' = Some (sid, d') \<longrightarrow> h = h' \<and> d = d') \<and>
         (\<forall>i h. map_of (heartbeats (run st0 es)) sid = Some h \<longrightarrow>
            timers (rearm sid i (run st0 es)) h = None) \<and>
         (\<forall>i h d. timers (rearm sid i (run st0 es)) h = Some (sid, d) \<longrightarrow>
            h = next_timer (run st0 es) \<and> d = now (run st0 es) + i) \<and>
         clear_heartbeat sid (clear_heartbeat sid (run st0 es)) = clear_heartbeat sid (run st0 es) \<and>
         (map_of (heartbeats (run st0 es)) sid = None \<longrightarrow>
            clear_heartbeat sid (run st0 es) = run st0 es) \<and>
         (\<forall>x. clearTimeout x (clearTimeout x (run st0 es)) = clearTimeout x (run st0 es)) \<and>
         clearTimeout None (run st0 es) = run st0 es"
proof -
  let ?st = "run st0 es"
  have t: "timers_ok ?st" using reach_inv[OF assms] by (rule inv_timers_ok)
  have a: "h = h' \<and> d = d'"
    if "timers ?st h = Some (sid, d)" "timers ?st h' = Some (sid, d')" for h h' d d'
    using t that by (rule one_timer)
  have b: "timers (rearm sid i ?st) h = None" if "map_of (heartbeats ?st) sid = Some h" for i h
    using that t by (rule rearm_clears_old)
  have c: "h = next_timer ?st \<and> d = now ?st + i"
    if "timers (rearm sid i ?st) h = Some (sid, d)" for i h d
    using t that by (rule rearm_own)
  have d: "clearTimeout None ?st = ?st" by (simp add: clearTimeout_def)
  show ?thesis
  proof (intro conjI allI impI)
    show "clear_heartbeat sid (clear_heartbeat sid ?st) = clear_heartbeat sid ?st"
      by (rule clear_heartbeat_idem)
    show "clearTimeout None ?st = ?st" by (rule d)
    show "clearTimeout x (clearTimeout x ?st) = clearTimeout x ?st" for x
      by (rule clearTimeout_idem)
    show "clear_heartbeat sid ?st = ?st" if "map_of (heartbeats ?st) sid = None"
      using that by (rule clear_heartbeat_absent)
  qed (use a b c in blast)+
qed

theorem one_live_timer_per_subscription_witness:
  "getSubgraphExecutor demo_parse demo_url ''v'' demo_entry (Some ([], 0)) = Inr demo \<and>
   admissible demo [Subscribe ''a'', Subscribe ''b'', Pull ''a'', Pull ''b'', Elapse 10] \<and>
   timers two_subs 0 = Some (''a'', 50000) \<and> map_of (heartbeats two_subs) ''a'' = Some 0 \<and>
   timers (rearm ''a'' 7 two_subs) 0 = None \<and>
   timers (rearm ''a'' 7 two_subs) 2 = Some (''a'', 17) \<and>
   next_timer two_subs = 2 \<and> now two_subs + 7 = 17 \<and>
   map_of (heartbeats two_subs) ''z'' = None \<and> clear_heartbeat ''z'' two_subs = two_subs"
proof -
  note a = one_live_timer_per_subscription
    [OF demo_init two_subs_fields(8), folded two_subs_def, of "''a''"]
  note z = one_live_timer_per_subscription
    [OF demo_init two_subs_fields(8), folded two_subs_def, of "''z''"]
  note a1 = a[THEN conjunct2, THEN conjunct1, rule_format, of 0 7]
  note a2 = a[THEN conjunct2, THEN conjunct2, THEN conjunct1, rule_format, of 7]
  note z1 = z[THEN conjunct2, THEN conjunct2, THEN conjunct2, THEN conjunct2, THEN conjunct1,
              rule_format]
  have ha: "map_of (heartbeats two_subs) ''a'' = Some 0"
    and hz: "map_of (heartbeats two_subs) ''z'' = None"
    by (simp_all add: two_subs_fields(5))
  have n: "timers (rearm ''a'' 7 two_subs) 2 = Some (''a'', 17)"
    by (simp add: rearm_fields two_subs_fields(3,4))
  have o: "next_timer two_subs = 2 \<and> now two_subs + 7 = 17"
    using a2[OF n] by simp
  show ?thesis
    using demo_init two_subs_fields(8) two_subs_fields(6) ha a1[OF ha] n o hz z1[OF hz]
    by (intro conjI) blast+
qed

text \<open>
  C3, as the code has it. For a subscription whose sequence the consumer has started and
  that is still open: an initiating response with status ok that carries GraphQL errors,
  and an accepted \<open>complete\<close> message that carries errors, end the sequence with the
  single error as it was received when there is exactly one, and with one aggregate that
  holds every error (so every message) when there are more; for the response the message
  of the aggregate is the messages joined by newlines. An accepted \<open>complete\<close> message
  without an \<open>errors\<close> field ends the sequence with success. The sequence then keeps its
  result whatever happens later.
\<close>

theorem errors_end_started_sequence:
  assumes "getSubgraphExecutor JSON_parse url uuid entry (Some ([], n)) = Inr st0"
    and "admissible st0 es"
    and "subs (run st0 es) sid = Some sub" and "repeater sub = Started"
  shows "(\<forall>res rj errs later. fetch_pending sub \<longrightarrow> ok res \<longrightarrow> json res = Json rj \<longrightarrow>
            errors rj = Some errs \<longrightarrow> errs \<noteq> [] \<longrightarrow>
            admissible (step (run st0 es) (Settle sid (FetchResolved res))) later \<longrightarrow>
            settled sid
              (Some (if length errs = 1 then GraphQLError (errs ! 0)
                     else AggregateError errs (join [CHR 0x0A] (map message errs))))
              (pushed sub)
              (run (step (run st0 es) (Settle sid (FetchResolved res))) later)) \<and>
         (\<forall>msg errs later. msg_verifier msg = verifier (run st0 es) \<longrightarrow>
            action msg = Complete (Some errs) \<longrightarrow> errs \<noteq> [] \<longrightarrow>
            admissible (step (run st0 es) (Deliver sid msg)) later \<longrightarrow>
            settled sid
              (Some (if length errs = 1 then GraphQLError (errs ! 0) else AggregateError errs []))
              (pushed sub)
              (run (step (run st0 es) (Deliver sid msg)) later)) \<and>
         (\<forall>msg later. msg_verifier msg = verifier (run st0 es) \<longrightarrow>
            action msg = Complete None \<longrightarrow>
            admissible (step (run st0 es) (Deliver sid msg)) later \<longrightarrow>
            settled sid None (pushed sub) (run (step (run st0 es) (Deliver sid msg)) later))"
proof -
  let ?st = "run st0 es"
  have i: "inv ?st" using assms(1,2) by (rule reach_inv)
  have a: "settled sid
              (Some (if length errs = 1 then GraphQLError (errs ! 0)
                     else AggregateError errs (join [CHR 0x0A] (map message errs))))
              (pushed sub) (run (step ?st (Settle sid (FetchResolved res))) later)"
    if "fetch_pending sub" "ok res" "json res = Json rj" "errors rj = Some errs"
      "admissible (step ?st (Settle sid (FetchResolved res))) later" for res rj errs later
    using that(5)
    by (intro settled_run)
       (simp_all add: settled_iff[OF response_result(1)[OF i assms(3,4) that(1,2,3,4)]])
  have b: "settled sid
              (Some (if length errs = 1 then GraphQLError (errs ! 0) else AggregateError errs []))
              (pushed sub) (run (step ?st (Deliver sid msg)) later)"
    if "msg_verifier msg = verifier ?st" "action msg = Complete (Some errs)"
      "admissible (step ?st (Deliver sid msg)) later" for msg errs later
    using that(3)
    by (intro settled_run)
       (simp_all add: settled_iff[OF complete_result[OF i assms(3,4) that(1,2)]])
  have c: "settled sid None (pushed sub) (run (step ?st (Deliver sid msg)) later)"
    if "msg_verifier msg = verifier ?st" "action msg = Complete None"
      "admissible (step ?st (Deliver sid msg)) later" for msg later
    using that(3)
    by (intro settled_run)
       (simp_all add: settled_iff[OF complete_result[OF i assms(3,4) that(1,2)]])
  show ?thesis using a b c by (intro conjI allI impI) blast+
qed

lemma started_a_fields:
  "subs started_a ''a'' = Some \<lparr>heartbeatIntervalMs = 50000,
      fetchBody = \<lparr>callbackUrl = ''http://localhost:4000/callback/a'', ext_subscriptionId = ''a'',
                   ext_verifier = ''v'', ext_heartbeatIntervalMs = 50000\<rparr>,
      stopSubscription = RepeaterStop, pushFn = RepeaterPush, subId = Some 0,
      repeater = Started, pushed = [], fetch_pending = True, cleanups = 0\<rparr>"
  "verifier started_a = ''v''" "next_timer started_a = 1" "now started_a = 0"
  "heartbeats started_a = [(''a'', 0)]" "timers started_a 0 = Some (''a'', 50000)"
  "pubsub started_a = [(0, ''a'')]" "stopFnSet started_a = [''a'']" "uncaught started_a = []"
  by (simp_all add: started_a_def model_defs demo_defs)

lemma only_dispose: "admissible st [Dispose]"
  by simp

theorem errors_end_started_sequence_witness:
  "getSubgraphExecutor demo_parse demo_url ''v'' demo_entry (Some ([], 0)) = Inr demo \<and>
   admissible demo [Subscribe ''a'', Pull ''a''] \<and>
   (\<exists>sub. subs started_a ''a'' = Some sub \<and> repeater sub = Started \<and> fetch_pending sub \<and>
      pushed sub = []) \<and>
   ok \<lparr>ok = True, status = 200, json = Json \<lparr>errors = Some [boom], data = None\<rparr>\<rparr> \<and>
   [boom] \<noteq> [] \<and> [boom, boom] \<noteq> [] \<and>
   msg_verifier (complete_with None) = verifier started_a \<and>
   admissible (step started_a (Settle ''a'' (response_with True 200 (Some [boom]) None))) [Dispose] \<and>
   admissible (step started_a (Deliver ''a'' (complete_with (Some [boom, boom])))) [Dispose] \<and>
   admissible (step started_a (Deliver ''a'' (complete_with None))) [Dispose] \<and>
   settled ''a'' (Some (GraphQLError boom)) []
     (run (step started_a (Settle ''a'' (response_with True 200 (Some [boom]) None))) [Dispose]) \<and>
   settled ''a'' (Some (AggregateError [boom, boom] [])) []
     (run (step started_a (Deliver ''a'' (complete_with (Some [boom, boom])))) [Dispose]) \<and>
   settled ''a'' None [] (run (step started_a (Deliver ''a'' (complete_with None))) [Dispose])"
proof -
  note t = errors_end_started_sequence
    [OF demo_init demo_admissible, folded started_a_def, OF started_a_fields(1)]
  have v: "msg_verifier (complete_with es) = verifier started_a" for es
    by (simp add: complete_with_def started_a_fields(2))
  have a: "settled ''a'' (Some (GraphQLError boom)) []
     (run (step started_a (Settle ''a'' (response_with True 200 (Some [boom]) None))) [Dispose])"
    using t[THEN conjunct1, rule_format,
        of "\<lparr>ok = True, status = 200, json = Json \<lparr>errors = Some [boom], data = None\<rparr>\<rparr>"
           "\<lparr>errors = Some [boom], data = None\<rparr>" "[boom]" "[Dispose]"]
    by (simp add: response_with_def)
  have b: "settled ''a'' (Some (AggregateError [boom, boom] [])) []
     (run (step started_a (Deliver ''a'' (complete_with (Some [boom, boom])))) [Dispose])"
    using t[THEN conjunct2, THEN conjunct1, rule_format,
        of "complete_with (Some [boom, boom])" "[boom, boom]" "[Dispose]"] v
    by (simp add: complete_with_def)
  have c: "settled ''a'' None []
     (run (step started_a (Deliver ''a'' (complete_with None))) [Dispose])"
    using t[THEN conjunct2, THEN conjunct2, rule_format, of "complete_with None" "[Dispose]"] v
    by (simp add: complete_with_def)
  show ?thesis
    using a b c v demo_init demo_admissible started_a_fields(1) by simp
qed

text \<open>
  C3, as stated, fails in three places. A response with status 500 that carries one error
  ends the started sequence with the HTTP error, not with the error carried: \<open>stop\<close> keeps
  the first error it was given. A \<open>complete\<close> message whose \<open>errors\<close> is the empty array
  carries no error and still ends the sequence with a failure. And before the consumer has
  pulled, \<open>stopSubscription\<close> is the placeholder: the error of the response is thrown, and
  the sequence is not ended at all.
\<close>

theorem carried_errors_not_always_surfaced:
  "settled ''a'' (Some (http_error 500)) []
     (step started_a (Settle ''a'' (response_with False 500 (Some [boom]) None))) \<and>
   http_error 500 \<noteq> GraphQLError boom \<and>
   settled ''a'' (Some (AggregateError [] [])) []
     (step started_a (Deliver ''a'' (complete_with (Some [])))) \<and>
   map_option repeater
     (subs (step created_a (Settle ''a'' (response_with True 200 (Some [boom]) None))) ''a'') =
     Some Initial \<and>
   uncaught (step created_a (Settle ''a'' (response_with True 200 (Some [boom]) None))) =
     [GraphQLError boom]"
  by (simp add: settled_def started_a_def created_a_def response_with_def complete_with_def
        boom_def model_defs demo_defs)

text \<open>
  C6, as the code has it. When the consumer has started the sequence and it is still open,
  an initiating response with status ok, no \<open>errors\<close> field and non-null data appends the
  data to the sequence once and ends it with success; the hook has then run once, no
  listener, \<open>stop\<close> function, heartbeat entry or timer of the subscription is left, nothing
  is thrown, and nothing is ever pushed again.
\<close>

theorem inline_data_pushed_once_then_ends:
  assumes "getSubgraphExecutor JSON_parse url uuid entry (Some ([], n)) = Inr st0"
    and "admissible st0 es"
    and "subs (run st0 es) sid = Some sub" and "repeater sub = Started"
    and "fetch_pending sub" and "ok res" and "json res = Json rj"
    and "errors rj = None" and "data rj = Some d"
  shows "settled sid None (pushed sub @ [d]) (step (run st0 es) (Settle sid (FetchResolved res))) \<and>
         sid \<notin> snd ` set (pubsub (step (run st0 es) (Settle sid (FetchResolved res)))) \<and>
         sid \<notin> set (stopFnSet (step (run st0 es) (Settle sid (FetchResolved res)))) \<and>
         map_of (heartbeats (step (run st0 es) (Settle sid (FetchResolved res)))) sid = None \<and>
         (\<forall>h dl. timers (step (run st0 es) (Settle sid (FetchResolved res))) h \<noteq> Some (sid, dl)) \<and>
         (\<exists>sub'. subs (step (run st0 es) (Settle sid (FetchResolved res))) sid = Some sub' \<and>
            cleanups sub' = 1) \<and>
         uncaught (step (run st0 es) (Settle sid (FetchResolved res))) = uncaught (run st0 es) \<and>
         (\<forall>later. admissible (step (run st0 es) (Settle sid (FetchResolved res))) later \<longrightarrow>
            settled sid None (pushed sub @ [d])
              (run (step (run st0 es) (Settle sid (FetchResolved res))) later))"
proof -
  let ?st = "run st0 es"
  let ?st' = "step ?st (Settle sid (FetchResolved res))"
  let ?sub' = "sub\<lparr>fetch_pending := False, pushed := pushed sub @ [d], repeater := Stopped None,
          cleanups := Suc (cleanups sub)\<rparr>"
  have i: "inv ?st" using assms(1,2) by (rule reach_inv)
  have i': "inv ?st'" using assms(1,2) by (rule reach_step) simp
  note w = wired_of_started[OF i assms(3,4)]
  note r = response_result(2)[OF i assms(3,4,5,6,7,8,9)]
  have s: "subs ?st' sid = Some ?sub'" using r by simp
  have se: "settled sid None (pushed sub @ [d]) ?st'" by (simp add: settled_iff[OF s])
  note e = ended_clean[OF i' s]
  have c: "cleanups ?sub' = 1" using w(3) by simp
  show ?thesis
  proof (intro conjI allI impI)
    show "settled sid None (pushed sub @ [d]) ?st'" by (rule se)
    show "sid \<notin> snd ` set (pubsub ?st')" using e(3) w(1) by simp
    show "sid \<notin> set (stopFnSet ?st')" using e(2) w(1) by simp
    show "map_of (heartbeats ?st') sid = None" using e(4) w(1) by simp
    show "timers ?st' h \<noteq> Some (sid, dl)" for h dl using e(5)[of h dl] w(1) by simp
    show "\<exists>sub'. subs ?st' sid = Some sub' \<and> cleanups sub' = 1" using s c by blast
    show "uncaught ?st' = uncaught ?st" using r by simp
    show "settled sid None (pushed sub @ [d]) (run ?st' later)" if "admissible ?st' later" for later
      using se that by (rule settled_run)
  qed
qed

theorem inline_data_pushed_once_then_ends_witness:
  "getSubgraphExecutor demo_parse demo_url ''v'' demo_entry (Some ([], 0)) = Inr demo \<and>
   admissible demo [Subscribe ''a'', Pull ''a''] \<and>
   (\<exists>sub. subs started_a ''a'' = Some sub \<and> repeater sub = Started \<and> fetch_pending sub \<and>
      pushed sub = []) \<and>
   admissible (step started_a (Settle ''a'' (response_with True 200 None (Some ''d'')))) [Dispose] \<and>
   settled ''a'' None [''d''] (step started_a (Settle ''a'' (response_with True 200 None (Some ''d'')))) \<and>
   settled ''a'' None [''d'']
     (run (step started_a (Settle ''a'' (response_with True 200 None (Some ''d'')))) [Dispose])"
proof -
  note t = inline_data_pushed_once_then_ends
    [OF demo_init demo_admissible, folded started_a_def, OF started_a_fields(1),
     of "\<lparr>ok = True, status = 200, json = Json \<lparr>errors = None, data = Some ''d''\<rparr>\<rparr>"
        "\<lparr>errors = None, data = Some ''d''\<rparr>" "''d''",
     folded response_with_def, simplified]
  note l = t[THEN conjunct2, THEN conjunct2, THEN conjunct2, THEN conjunct2, THEN conjunct2,
             THEN conjunct2, THEN conjunct2, rule_format, OF only_dispose]
  show ?thesis
    using t[THEN conjunct1] l demo_init demo_admissible started_a_fields(1)
    by simp
qed

text \<open>
  C6, as stated, fails. When the response arrives before the consumer has pulled, \<open>pushFn\<close>
  is still the placeholder: it throws, the catch handler rethrows through the placeholder
  \<open>stopSubscription\<close>, nothing is pushed and the sequence is not ended; when the consumer
  pulls afterwards the listener is registered and stays. And a response whose \<open>errors\<close> is
  the empty array carries no error, yet its data is not pushed and the sequence fails.
\<close>

theorem inline_data_lost_before_start:
  "map_option pushed
     (subs (step created_a (Settle ''a'' (response_with True 200 None (Some ''d'')))) ''a'') =
     Some [] \<and>
   map_option repeater
     (subs (step created_a (Settle ''a'' (response_with True 200 None (Some ''d'')))) ''a'') =
     Some Initial \<and>
   length (uncaught (step created_a (Settle ''a'' (response_with True 200 None (Some ''d''))))) = 1 \<and>
   map_option pushed
     (subs (run created_a [Settle ''a'' (response_with True 200 None (Some ''d'')), Pull ''a''])
        ''a'') = Some [] \<and>
   map_option repeater
     (subs (run created_a [Settle ''a'' (response_with True 200 None (Some ''d'')), Pull ''a''])
        ''a'') = Some Started \<and>
   pubsub (run created_a [Settle ''a'' (response_with True 200 None (Some ''d'')), Pull ''a'']) =
     [(0, ''a'')] \<and>
   settled ''a'' (Some (AggregateError [] [])) []
     (step started_a (Settle ''a'' (response_with True 200 (Some []) (Some ''d''))))"
  by (simp add: settled_def started_a_def created_a_def response_with_def model_defs demo_defs)





subsection \<open>Cleanup of started sequences\<close>

text \<open>
  The paths on which the cleanup does run. In every reachable state the finalization hook
  of a subscription has run exactly once if the consumer had started its sequence and the
  sequence has ended, and not at all otherwise; when it has run, the subscription has no
  \<open>stop\<close> function, listener, heartbeat entry or timer left. Every way out of a started
  sequence ends in that state: cancellation by the consumer, disposal, an accepted
  \<open>complete\<close> message with or without errors, an initiating request that fails or answers
  with errors or inline data, and the expiry of the heartbeat timer. On a sequence that
  has ended, \<open>stop\<close> and \<open>return\<close> change nothing.
\<close>

theorem cleanup_once_for_started_sequences:
  assumes "getSubgraphExecutor JSON_parse url uuid entry (Some ([], n)) = Inr st0"
    and "admissible st0 es"
  shows "(\<forall>sid sub. subs (run st0 es) sid = Some sub \<longrightarrow>
            cleanups sub =
              (if stopSubscription sub = RepeaterStop \<and> repeater sub \<noteq> Started then 1 else 0) \<and>
            (cleanups sub = 1 \<longrightarrow> finalized sid (run st0 es))) \<and>
         (\<forall>sid sub r. subs (run st0 es) sid = Some sub \<longrightarrow> repeater sub = Stopped r \<longrightarrow>
            (\<forall>e. repeater_stop sid e (run st0 es) = run st0 es) \<and>
            step (run st0 es) (Cancel sid) = run st0 es) \<and>
         (\<forall>sid sub. subs (run st0 es) sid = Some sub \<longrightarrow> repeater sub = Started \<longrightarrow>
            finalized sid (step (run st0 es) (Cancel sid)) \<and>
            finalized sid (step (run st0 es) Dispose) \<and>
            (\<forall>msg errs. msg_verifier msg = verifier (run st0 es) \<longrightarrow>
               action msg = Complete errs \<longrightarrow>
               finalized sid (step (run st0 es) (Deliver sid msg))) \<and>
            (\<forall>r. fetch_pending sub \<longrightarrow> ends_sequence r \<longrightarrow>
               finalized sid (step (run st0 es) (Settle sid r))) \<and>
            (\<forall>h d dt. timers (run st0 es) h = Some (sid, d) \<longrightarrow> d \<le> now (run st0 es) + dt \<longrightarrow>
               finalized sid (step (run st0 es) (Elapse dt))))"
proof -
  let ?st = "run st0 es"
  have i: "inv ?st" using assms by (rule reach_inv)
  have next_inv: "inv (step ?st e)" if "\<And>s. e \<noteq> Subscribe s" for e
    using i by (rule inv_step) (use that in auto)
  have next_wired: "wired sid (step ?st e)"
    if "subs ?st sid = Some sub" "repeater sub = Started" "\<And>s. e \<noteq> Subscribe s" for sid sub e
    using wiredI[OF i that(1,2)] by (rule wired_step) (use that(3) in auto)
  have fin: "finalized sid (step ?st e)"
    if "subs ?st sid = Some sub" "repeater sub = Started" "\<And>s. e \<noteq> Subscribe s"
      "settled sid r p (step ?st e)" for sid sub e r p
    using next_inv[OF that(3)] next_wired[OF that(1,2,3)] that(4) by (rule finalizedI)
  have a: "cleanups sub =
              (if stopSubscription sub = RepeaterStop \<and> repeater sub \<noteq> Started then 1 else 0) \<and>
            (cleanups sub = 1 \<longrightarrow> finalized sid ?st)"
    if "subs ?st sid = Some sub" for sid sub
  proof -
    note c = cleanups_count[OF i that]
    have "finalized sid ?st" if o: "cleanups sub = 1"
    proof -
      have "(if stopSubscription sub = RepeaterStop \<and> repeater sub \<noteq> Started
               then 1 else 0) = (1::nat)"
        using c o by (rule subst)
      then have "stopSubscription sub = RepeaterStop \<and> repeater sub \<noteq> Started"
        by (rule_tac ccontr) simp
      then have "stopSubscription sub = RepeaterStop" "repeater sub \<noteq> Started"
        by (rule conjunct1, rule conjunct2)
      then show ?thesis by (rule finalized_of_ended[OF i \<open>subs ?st sid = Some sub\<close>])
    qed
    then show ?thesis using c by blast
  qed
  have b: "(\<forall>e. repeater_stop sid e ?st = ?st) \<and> step ?st (Cancel sid) = ?st"
    if "subs ?st sid = Some sub" "repeater sub = Stopped r" for sid sub r
  proof -
    have "repeater_stop sid e ?st = ?st" for e
      using that by (intro stop_idle) auto
    then show ?thesis using cancel_idle[OF i that] by blast
  qed
  have c: "finalized sid (step ?st (Cancel sid)) \<and>
            finalized sid (step ?st Dispose) \<and>
            (\<forall>msg errs. msg_verifier msg = verifier ?st \<longrightarrow> action msg = Complete errs \<longrightarrow>
               finalized sid (step ?st (Deliver sid msg))) \<and>
            (\<forall>r. fetch_pending sub \<longrightarrow> ends_sequence r \<longrightarrow>
               finalized sid (step ?st (Settle sid r))) \<and>
            (\<forall>h d dt. timers ?st h = Some (sid, d) \<longrightarrow> d \<le> now ?st + dt \<longrightarrow>
               finalized sid (step ?st (Elapse dt)))"
    if s: "subs ?st sid = Some sub" "repeater sub = Started" for sid sub
  proof (intro conjI allI impI)
    show "finalized sid (step ?st (Cancel sid))"
      using s _ cancel_result[OF i s] by (rule fin) simp
    show "finalized sid (step ?st Dispose)"
      using s _ dispose_result[OF i s] by (rule fin) simp
    show "finalized sid (step ?st (Deliver sid msg))"
      if "msg_verifier msg = verifier ?st" "action msg = Complete errs" for msg errs
    proof -
      have "\<exists>R. settled sid R (pushed sub) (step ?st (Deliver sid msg))"
        using settled_iff[OF complete_result[OF i s that]] by simp
      then show ?thesis using fin[OF s, of "Deliver sid msg"] by auto
    qed
    show "finalized sid (step ?st (Settle sid r))" if "fetch_pending sub" "ends_sequence r" for r
      using settle_result[OF i s that] fin[OF s, of "Settle sid r"] by auto
    show "finalized sid (step ?st (Elapse dt))"
      if "timers ?st h = Some (sid, d)" "d \<le> now ?st + dt" for h d dt
    proof -
      have "settled sid (Some (GraphQLError createTimeoutError)) (pushed sub) (step ?st (Elapse dt))"
        using elapse_timeout[OF i s that] by (simp add: step_def)
      then show ?thesis using fin[OF s, of "Elapse dt"] by auto
    qed
  qed
  show ?thesis using a b c by (intro conjI allI impI) blast+
qed

lemma started_a_exits:
  "finalized ''a'' (step started_a (Cancel ''a''))"
  "finalized ''a'' (step started_a (Elapse 50000))"
  "step (step started_a (Cancel ''a'')) (Cancel ''a'') = step started_a (Cancel ''a'')"
  "ends_sequence (FetchRejected (JsError ''ECONNREFUSED''))"
  "50000 \<le> now started_a + 50000"
  by (simp_all add: finalized_def ends_sequence_def started_a_def model_defs demo_defs)

theorem cleanup_once_for_started_sequences_witness:
  "getSubgraphExecutor demo_parse demo_url ''v'' demo_entry (Some ([], 0)) = Inr demo \<and>
   admissible demo [Subscribe ''a'', Pull ''a''] \<and>
   (\<exists>sub. subs started_a ''a'' = Some sub \<and> repeater sub = Started \<and> fetch_pending sub \<and>
      cleanups sub = 0) \<and>
   msg_verifier (complete_with None) = verifier started_a \<and>
   action (complete_with None) = Complete None \<and>
   ends_sequence (FetchRejected (JsError ''ECONNREFUSED'')) \<and>
   timers started_a 0 = Some (''a'', 50000) \<and> 50000 \<le> now started_a + 50000 \<and>
   finalized ''a'' (step started_a (Cancel ''a'')) \<and>
   finalized ''a'' (step started_a Dispose) \<and>
   finalized ''a'' (step started_a (Deliver ''a'' (complete_with None))) \<and>
   finalized ''a'' (step started_a (Settle ''a'' (FetchRejected (JsError ''ECONNREFUSED'')))) \<and>
   finalized ''a'' (step started_a (Elapse 50000))"
proof -
  note t = cleanup_once_for_started_sequences
    [OF demo_init demo_admissible, folded started_a_def]
  obtain sub where s: "subs started_a ''a'' = Some sub" "repeater sub = Started"
    "fetch_pending sub" "cleanups sub = 0"
    using started_a_fields(1) by simp
  note p = t[THEN conjunct2, THEN conjunct2, rule_format, OF s(1,2)]
  have v: "msg_verifier (complete_with None) = verifier started_a"
    "action (complete_with None) = Complete None"
    by (simp_all add: complete_with_def started_a_fields(2))
  note p1 = p[THEN conjunct1]
  note p2 = p[THEN conjunct2, THEN conjunct1]
  note p3 = p[THEN conjunct2, THEN conjunct2, THEN conjunct1, rule_format, OF v]
  note p4 = p[THEN conjunct2, THEN conjunct2, THEN conjunct2, THEN conjunct1, rule_format,
              OF s(3) started_a_exits(4)]
  note p5 = p[THEN conjunct2, THEN conjunct2, THEN conjunct2, THEN conjunct2, rule_format,
              OF started_a_fields(6) started_a_exits(5)]
  have "\<exists>sub. subs started_a ''a'' = Some sub \<and> repeater sub = Started \<and> fetch_pending sub \<and>
      cleanups sub = 0"
    using s by blast
  then show ?thesis
    using p1 p2 p3 p4 p5 v demo_init demo_admissible started_a_fields(6) started_a_exits(4,5)
    by (intro conjI) assumption+
qed

text \<open>
  C2. The code breaks the claim on one exit path: cancellation by the caller before the
  first pull. The finalization hook (\<open>stop.finally\<close>) is attached by the executor of the
  Repeater, which runs on the first pull, while the heartbeat timer is armed and the
  heartbeat entry is made when the subscription is created. A caller that cancels without
  ever pulling ends the sequence with no hook attached: the cleanup runs zero times, the
  heartbeat entry and the pending timer stay, and when the timer expires it throws the
  timeout out of its callback, still with no cleanup. The sibling path, the same
  cancellation after a pull, runs the cleanup once and leaves nothing behind.
\<close>

theorem cancelled_before_start_is_not_cleaned:
  "map_option repeater (subs (run demo [Subscribe ''a'', Cancel ''a'']) ''a'') =
     Some (Stopped None) \<and>
   map_option cleanups (subs (run demo [Subscribe ''a'', Cancel ''a'']) ''a'') = Some 0 \<and>
   heartbeats (run demo [Subscribe ''a'', Cancel ''a'']) = [(''a'', 0)] \<and>
   timers (run demo [Subscribe ''a'', Cancel ''a'']) 0 = Some (''a'', 50000) \<and>
   uncaught (run demo [Subscribe ''a'', Cancel ''a'', Elapse 50000]) =
     [GraphQLError createTimeoutError] \<and>
   map_option cleanups (subs (run demo [Subscribe ''a'', Cancel ''a'', Elapse 50000]) ''a'') =
     Some 0 \<and>
   heartbeats (run demo [Subscribe ''a'', Cancel ''a'', Elapse 50000]) = [(''a'', 0)] \<and>
   map_option cleanups (subs (run demo [Subscribe ''a'', Pull ''a'', Cancel ''a'']) ''a'') =
     Some 1 \<and>
   finalized ''a'' (run demo [Subscribe ''a'', Pull ''a'', Cancel ''a'']) \<and>
   heartbeats (run demo [Subscribe ''a'', Pull ''a'', Cancel ''a'']) = [] \<and>
   timers (run demo [Subscribe ''a'', Pull ''a'', Cancel ''a'']) 0 = None \<and>
   uncaught (run demo [Subscribe ''a'', Pull ''a'', Cancel ''a'', Elapse 50000]) = []"
  by (simp add: finalized_def model_defs demo_defs)

subsection \<open>Disposal of started sequences\<close>

text \<open>
  What disposal does achieve. It calls \<open>stop\<close> with no error for every \<open>stop\<close> function
  in the registry, which in a reachable state are those of the started, open
  subscriptions: each of their sequences ends with success. Afterwards no subscription is
  running, no timer is pending, no \<open>stop\<close> function and no listener is registered, and
  nothing was thrown. Disposing again changes nothing, whether the second call comes before
  or after the finalization hooks of the first have run: no hook runs twice and no timer
  fires.
\<close>

theorem dispose_stops_all_and_is_idempotent:
  assumes "getSubgraphExecutor JSON_parse url uuid entry (Some ([], n)) = Inr st0"
    and "admissible st0 es"
  shows "(\<forall>sid \<in> set (stopFnSet (run st0 es)).
            \<exists>sub. subs (run st0 es) sid = Some sub \<and> repeater sub = Started \<and>
              settled sid None (pushed sub) (step (run st0 es) Dispose) \<and>
              finalized sid (step (run st0 es) Dispose)) \<and>
         (\<forall>sid sub. subs (run st0 es) sid = Some sub \<longrightarrow> repeater sub = Started \<longrightarrow>
            sid \<in> set (stopFnSet (run st0 es))) \<and>
         (\<forall>sid sub. subs (step (run st0 es) Dispose) sid = Some sub \<longrightarrow>
            repeater sub \<noteq> Started \<and> cleanups sub \<le> 1) \<and>
         (\<forall>h. timers (step (run st0 es) Dispose) h = None) \<and>
         stopFnSet (step (run st0 es) Dispose) = [] \<and>
         pubsub (step (run st0 es) Dispose) = [] \<and>
         uncaught (step (run st0 es) Dispose) = uncaught (run st0 es) \<and>
         asyncDispose (asyncDispose (run st0 es)) = asyncDispose (run st0 es) \<and>
         step (step (run st0 es) Dispose) Dispose = step (run st0 es) Dispose"
proof -
  let ?st = "run st0 es"
  let ?d = "step ?st Dispose"
  have i: "inv ?st" using assms by (rule reach_inv)
  have i': "inv ?d" using i by (rule inv_step) simp
  have w: "winv [] ?st" using i by (simp add: inv_def)
  have w': "winv [] ?d" using i' by (simp add: inv_def)
  have reg: "sid \<in> set (stopFnSet ?st)" if "subs ?st sid = Some sub" "repeater sub = Started" for sid sub
    using started_wired[OF sub_okD[OF w that(1)] that(2)] by simp
  have a: "\<exists>sub. subs ?st sid = Some sub \<and> repeater sub = Started \<and>
              settled sid None (pushed sub) ?d \<and> finalized sid ?d"
    if m: "sid \<in> set (stopFnSet ?st)" for sid
  proof -
    obtain sub where s: "subs ?st sid = Some sub" "repeater sub = Started"
      using registered_started[OF i m] by blast
    note r = dispose_result[OF i s]
    have "wired sid ?d" using wiredI[OF i s] by (rule wired_step) simp
    then have "finalized sid ?d" using i' r by (intro finalizedI)
    then show ?thesis using s r by blast
  qed
  have none_started: "repeater sub \<noteq> Started" if "subs ?d sid = Some sub" for sid sub
  proof
    assume r: "repeater sub = Started"
    have "map_option repeater (subs (asyncDispose ?st) sid) = Some Started"
      using drain_keeps(1)[of "asyncDispose ?st" sid] that r by (simp add: step_def)
    then obtain x where x: "subs (asyncDispose ?st) sid = Some x" "repeater x = Started" by auto
    show False
    proof (cases "subs ?st sid")
      case None then show ?thesis using dispose_unknown[OF None] x(1) by simp
    next
      case (Some y)
      then show ?thesis using dispose_repeater[OF Some] x reg[OF Some] by (auto split: if_splits)
    qed
  qed
  have b: "repeater sub \<noteq> Started \<and> cleanups sub \<le> 1" if "subs ?d sid = Some sub" for sid sub
    using none_started[OF that] cleanups_count[OF i' that] by simp
  have c: "timers ?d h = None" for h
  proof -
    have "timers (asyncDispose ?st) h = None"
    proof (cases "timers ?st h")
      case None then show ?thesis by (simp add: dispose_fields)
    next
      case (Some x)
      obtain s d where "x = (s, d)" by (cases x)
      then have "map_of (heartbeats ?st) s = Some h"
        using timers_okD(1)[OF inv_timers_ok[OF i]] Some by simp
      then have "h \<in> snd ` set (heartbeats ?st)" by (force dest: map_of_SomeD)
      then show ?thesis by (simp add: dispose_fields)
    qed
    then show ?thesis by (simp add: step_def drain_keeps(4))
  qed
  have d: "stopFnSet ?d = []"
  proof (cases "stopFnSet ?d")
    case Nil then show ?thesis .
  next
    case (Cons s ss)
    then have "s \<in> set (stopFnSet ?d)" by simp
    then show ?thesis using registered_started[OF i'] none_started by blast
  qed
  have e: "pubsub ?d = []"
  proof (cases "pubsub ?d")
    case Nil then show ?thesis .
  next
    case (Cons l ls)
    obtain k s where l: "l = (k, s)" by (cases l)
    then have m: "(k, s) \<in> set (pubsub ?d)" using Cons by simp
    then have "handle_of ?d s = Some k" using listeners_okD(1)[OF winvD(4)[OF w']] by blast
    then obtain sub where s: "subs ?d s = Some sub" "subId sub = Some k"
      by (auto simp: handle_of_def split: option.splits)
    have "s \<notin> snd ` set (pubsub ?d)"
      using sub_okD[OF w' s(1)] s(2) none_started[OF s(1)]
      by (cases "stopSubscription sub") (auto simp: sub_ok_def)
    then show ?thesis using m by force
  qed
  have f: "uncaught ?d = uncaught ?st" by (simp add: step_def dispose_fields)
  show ?thesis
    using a reg b c d e f dispose_twice[of ?st] dispose_step_twice[of ?st]
    by (intro conjI allI impI ballI) blast+
qed

lemma started_a_disposed:
  "''a'' \<in> set (stopFnSet started_a)"
  "settled ''a'' None [] (step started_a Dispose)"
  "timers (step started_a Dispose) 0 = None"
  "pubsub (step started_a Dispose) = []"
  by (simp_all add: settled_def started_a_def model_defs demo_defs)

theorem dispose_stops_all_and_is_idempotent_witness:
  "getSubgraphExecutor demo_parse demo_url ''v'' demo_entry (Some ([], 0)) = Inr demo \<and>
   admissible demo [Subscribe ''a'', Pull ''a''] \<and>
   ''a'' \<in> set (stopFnSet started_a) \<and>
   (\<exists>sub. subs started_a ''a'' = Some sub \<and> repeater sub = Started) \<and>
   timers started_a 0 = Some (''a'', 50000) \<and>
   (\<exists>sub. subs (step started_a Dispose) ''a'' = Some sub \<and> repeater sub = Stopped None \<and>
      cleanups sub \<le> 1) \<and>
   finalized ''a'' (step started_a Dispose) \<and>
   timers (step started_a Dispose) 0 = None \<and>
   pubsub (step started_a Dispose) = [] \<and>
   step (step started_a Dispose) Dispose = step started_a Dispose"
proof -
  note t = dispose_stops_all_and_is_idempotent
    [OF demo_init demo_admissible, folded started_a_def]
  obtain sub where s: "subs started_a ''a'' = Some sub" "repeater sub = Started"
    "settled ''a'' None (pushed sub) (step started_a Dispose)"
    "finalized ''a'' (step started_a Dispose)"
    using t[THEN conjunct1, rule_format, OF started_a_disposed(1)] by blast
  obtain sub' where s': "subs (step started_a Dispose) ''a'' = Some sub'"
    "repeater sub' = Stopped None"
    using s(3) by (auto simp: settled_def)
  have c: "cleanups sub' \<le> 1"
    using t[THEN conjunct2, THEN conjunct2, THEN conjunct1, rule_format, OF s'(1)] by simp
  note tm = t[THEN conjunct2, THEN conjunct2, THEN conjunct2, THEN conjunct1, rule_format, of 0]
  note ps = t[THEN conjunct2, THEN conjunct2, THEN conjunct2, THEN conjunct2, THEN conjunct2,
              THEN conjunct1]
  note tw = t[THEN conjunct2, THEN conjunct2, THEN conjunct2, THEN conjunct2, THEN conjunct2,
              THEN conjunct2, THEN conjunct2, THEN conjunct2]
  show ?thesis
    using s(1,2,4) s' c tm ps tw demo_init demo_admissible started_a_disposed(1)
      started_a_fields(6)
    by auto
qed

text \<open>
  C8. The code breaks the claim for a subscription that was created but not yet pulled.
  Disposal iterates the set of \<open>stop\<close> functions, which a subscription enters only when the
  executor of the Repeater runs on the first pull. A subscription that is created, with
  its initiating request in flight, and not yet pulled is not terminated: disposal clears
  its timer and leaves its sequence unstarted and its heartbeat entry in place. A pull
  after the disposal starts it, with a listener and a \<open>stop\<close> function registered on the
  disposed transport and no heartbeat timer, so that no later silence ends it. The sibling
  path, a subscription pulled before the disposal, is terminated with success and stays
  ended.
\<close>

theorem dispose_misses_unstarted_subscription:
  "map_option repeater (subs (run demo [Subscribe ''a'', Dispose]) ''a'') = Some Initial \<and>
   map_option fetch_pending (subs (run demo [Subscribe ''a'', Dispose]) ''a'') = Some True \<and>
   heartbeats (run demo [Subscribe ''a'', Dispose]) = [(''a'', 0)] \<and>
   timers (run demo [Subscribe ''a'', Dispose]) 0 = None \<and>
   map_option repeater (subs (run demo [Subscribe ''a'', Dispose, Pull ''a'']) ''a'') =
     Some Started \<and>
   pubsub (run demo [Subscribe ''a'', Dispose, Pull ''a'']) = [(0, ''a'')] \<and>
   stopFnSet (run demo [Subscribe ''a'', Dispose, Pull ''a'']) = [''a''] \<and>
   timers (run demo [Subscribe ''a'', Dispose, Pull ''a'']) 0 = None \<and>
   map_option repeater
     (subs (run demo [Subscribe ''a'', Dispose, Pull ''a'', Elapse 1000000]) ''a'') =
     Some Started \<and>
   map_option repeater (subs (run demo [Subscribe ''a'', Pull ''a'', Dispose]) ''a'') =
     Some (Stopped None) \<and>
   finalized ''a'' (run demo [Subscribe ''a'', Pull ''a'', Dispose]) \<and>
   map_option repeater (subs (run demo [Subscribe ''a'', Pull ''a'', Dispose, Pull ''a'']) ''a'') =
     Some (Stopped None)"
  by (simp add: finalized_def model_defs demo_defs)

end
